theory Spec2Isabelle
  imports Complex_Main "HOL-Library.Word" "HOL-Library.Sublist" "HOL-Library.Monad_Syntax"
    "HOL-Library.Log_Nat"
begin

section \<open>Go values used by the converters\<close>

text \<open>
  The four source files are successive versions of one program.  \<^verbatim>\<open>part_000\<close> and
  \<^verbatim>\<open>main.go\<close> (fixed scale 0.5) and \<^verbatim>\<open>part_002\<close> (scale from a flag) convert
  sequentially and read one pixel per cell; their \<^verbatim>\<open>toASCII\<close> is one and the same
  function of the image, the width and the computed height.  \<^verbatim>\<open>part_001\<close> starts one
  goroutine per row and averages a strided block of pixels per cell.

  Go's \<^verbatim>\<open>int\<close> is modelled as \<^typ>\<open>int\<close>, with every product wrapped to 64 bits;
  \<^verbatim>\<open>uint32\<close>, \<^verbatim>\<open>uint64\<close> and \<^verbatim>\<open>uint8\<close> are words, so their arithmetic wraps
  as in Go; a finite \<^verbatim>\<open>float64\<close> is the rational number it denotes.  A run-time
  panic is a value of type \<open>panic\<close> on the left of a sum.
\<close>

type_synonym u8 = "8 word"
type_synonym u16 = "16 word"
type_synonym u32 = "32 word"
type_synonym u64 = "64 word"

datatype panic = DivideByZero | IndexOutOfRange | MakeSliceLenOutOfRange

definition bindE :: "panic + 'a \<Rightarrow> ('a \<Rightarrow> panic + 'b) \<Rightarrow> panic + 'b" where
  "bindE m f = (case m of Inl e \<Rightarrow> Inl e | Inr v \<Rightarrow> f v)"

text \<open>Go's integer quotient truncates towards zero; dividing by zero panics.\<close>

definition tdiv :: "int \<Rightarrow> int \<Rightarrow> int" where
  "tdiv a b = sgn a * sgn b * (\<bar>a\<bar> div \<bar>b\<bar>)"

text \<open>
  A product of two \<^verbatim>\<open>int\<close>s wraps around in two's complement.  \<^verbatim>\<open>int\<close> is taken to be
  64 bits wide, as on a 64-bit target.
\<close>

definition wrap :: "int \<Rightarrow> int" where
  "wrap v = signed_take_bit 63 v"

definition imul :: "int \<Rightarrow> int \<Rightarrow> int" where
  "imul a b = wrap (a * b)"

definition quo :: "int \<Rightarrow> int \<Rightarrow> panic + int" where
  "quo a b = (if b = 0 then Inl DivideByZero else Inr (tdiv a b))"

definition udiv64 :: "u64 \<Rightarrow> u64 \<Rightarrow> panic + u64" where
  "udiv64 a b = (if b = 0 then Inl DivideByZero else Inr (a div b))"

text \<open>Indexing a string yields a byte and panics out of range; so does a slice store.\<close>

definition index_string :: "string \<Rightarrow> int \<Rightarrow> panic + char" where
  "index_string s i = (if 0 \<le> i \<and> i < int (length s) then Inr (s ! nat i) else Inl IndexOutOfRange)"

definition store :: "'a list \<Rightarrow> int \<Rightarrow> 'a \<Rightarrow> panic + 'a list" where
  "store xs i v = (if 0 \<le> i \<and> i < int (length xs) then Inr (xs[nat i := v]) else Inl IndexOutOfRange)"

text \<open>
  \<^verbatim>\<open>make([]string, n)\<close>: a slice of \<open>n\<close> empty strings.  It panics with
  \<^verbatim>\<open>len out of range\<close> for a negative length and for a length whose memory exceeds what
  the runtime can allocate: on a 64-bit target a string header takes 16 bytes and the limit
  is \<open>2^48\<close> bytes, so lengths above \<open>2^44\<close> panic.  An allocation within that limit which the
  machine cannot satisfy ends the program with a fatal error; this is not modelled.
\<close>

definition max_strings :: int where
  "max_strings = 2 ^ 44"

definition make_strings :: "int \<Rightarrow> panic + string list" where
  "make_strings n =
     (if n < 0 \<or> max_strings < n then Inl MakeSliceLenOutOfRange else Inr (replicate (nat n) []))"

text \<open>
  The loop \<^verbatim>\<open>for i := lo; i < hi; i++ { s = body(i, s) }\<close>, where the body may panic.
\<close>

function for_up :: "int \<Rightarrow> int \<Rightarrow> (int \<Rightarrow> 'a \<Rightarrow> panic + 'a) \<Rightarrow> 'a \<Rightarrow> panic + 'a" where
  "for_up i hi body s =
     (if i < hi
      then (case body i s of Inl e \<Rightarrow> Inl e | Inr s' \<Rightarrow> for_up (i + 1) hi body s')
      else Inr s)"
  by pat_completeness auto
termination
  by (relation "measure (\<lambda>(i, hi, body, s). nat (hi - i))") auto

declare for_up.simps [simp del]

text \<open>
  The loop \<^verbatim>\<open>for p := lo; p < hi; p += stride { s = body(p, s) }\<close> with a body that
  cannot panic.  Both callers clamp \<open>stride\<close> to at least 1 first; with a stride below 1
  the Go loop would not advance, and the model then leaves the loop at once.
\<close>

function for_stride :: "int \<Rightarrow> int \<Rightarrow> int \<Rightarrow> (int \<Rightarrow> 'a \<Rightarrow> 'a) \<Rightarrow> 'a \<Rightarrow> 'a" where
  "for_stride p hi stride body s =
     (if p < hi \<and> 1 \<le> stride
      then for_stride (p + stride) hi stride body (body p s)
      else s)"
  by pat_completeness auto
termination
  by (relation "measure (\<lambda>(p, hi, stride, body, s). nat (hi - p))") auto

declare for_stride.simps [simp del]

subsection \<open>Images\<close>

text \<open>
  \<^verbatim>\<open>image.Image\<close> is used through \<^verbatim>\<open>Bounds().Dx()\<close>, \<^verbatim>\<open>Bounds().Dy()\<close> and
  \<^verbatim>\<open>At(x, y).RGBA()\<close>.  \<^verbatim>\<open>RGBA\<close> returns \<^verbatim>\<open>uint32\<close> channels that the
  \<^verbatim>\<open>color.Color\<close> interface keeps within \<open>[0, 0xffff]\<close>: a colour is stored with
  16-bit channels and widened by \<open>RGBA\<close>.  Alpha is discarded by every caller.
\<close>

record color =
  red :: u16
  green :: u16
  blue :: u16

definition RGBA :: "color \<Rightarrow> u32 \<times> u32 \<times> u32" where
  "RGBA c = (ucast (red c), ucast (green c), ucast (blue c))"

record image =
  Dx :: int
  Dy :: int
  At :: "int \<Rightarrow> int \<Rightarrow> color"

definition palette :: string where
  "palette = ''@%#*+=-:. ''"

subsection \<open>The height expression\<close>

text \<open>
  Every version computes
  \<^verbatim>\<open>height := int(float64(imgHeight) * float64(width) / float64(imgWidth) * scale)\<close>
  (with \<open>0.5\<close> for \<open>scale\<close> in the first two) in \<^verbatim>\<open>float64\<close>, the IEEE 754 binary64
  format: 53 significant bits, exponents from \<open>-1022\<close> to \<open>1023\<close>, gradual underflow.  A
  finite \<^verbatim>\<open>float64\<close> is modelled as the rational number it denotes, and so is
  \<open>scale\<close>.  Each conversion from \<^verbatim>\<open>int\<close>, each product and each quotient yields the
  exact result rounded to the nearest representable number, a tie going to the even
  significand.  The expression has no sum, so no two of its operations can be fused.

  \<open>pow2 k\<close> is \<open>2^k\<close>, \<open>bitlen n\<close> is the number of binary digits of \<open>n\<close>, and \<open>binade q\<close>
  is the exponent \<open>e\<close> with \<open>2^e \<le> q < 2^(e+1)\<close> of a positive \<open>q\<close>.  \<open>round64 q\<close> rounds
  \<open>q\<close> to a multiple of \<open>2^(e-52)\<close>, where \<open>e\<close> is the binade of \<open>q\<close> and at least \<open>-1022\<close>.
\<close>

definition pow2 :: "int \<Rightarrow> rat" where
  "pow2 k = (if 0 \<le> k then 2 ^ nat k else 1 / 2 ^ nat (- k))"

function bitlen :: "int \<Rightarrow> int" where
  "bitlen n = (if n \<le> 0 then 0 else 1 + bitlen (n div 2))"
  by pat_completeness auto
termination
  by (relation "measure nat") auto

declare bitlen.simps [simp del]

definition binade :: "rat \<Rightarrow> int" where
  "binade q =
     (case quotient_of q of (a, b) \<Rightarrow>
        (let d = bitlen a - bitlen b
         in if pow2 d \<le> q then d else d - 1))"

definition round_even :: "rat \<Rightarrow> int" where
  "round_even m =
     (let f = \<lfloor>m\<rfloor>; r = m - of_int f
      in if r < 1 / 2 then f else if 1 / 2 < r then f + 1 else if even f then f else f + 1)"

definition round64 :: "rat \<Rightarrow> rat" where
  "round64 q =
     (if q = 0 then 0
      else (let e = max (binade \<bar>q\<bar>) (- 1022); u = pow2 (e - 52)
            in sgn q * of_int (round_even (\<bar>q\<bar> / u)) * u))"

text \<open>
  \<open>fl\<close> is one rounded operation.  A result that rounds beyond the largest finite number is
  an infinity.  An infinity or a NaN can only end in a conversion to \<^verbatim>\<open>int\<close> whose result
  Go leaves to the implementation, so the model stops there with \<open>None\<close>; so it does for
  a zero divisor, whose quotient is an infinity or a NaN, and for a value outside the
  range of a 64-bit \<^verbatim>\<open>int\<close>.  Otherwise \<^verbatim>\<open>int(f)\<close> discards the fraction of \<open>f\<close>.
\<close>

definition fl :: "rat \<Rightarrow> rat option" where
  "fl q = (let r = round64 q in if r = 0 \<or> binade \<bar>r\<bar> < 1024 then Some r else None)"

definition to_int :: "rat \<Rightarrow> int option" where
  "to_int r =
     (let t = (if 0 \<le> r then \<lfloor>r\<rfloor> else \<lceil>r\<rceil>)
      in if - (2 ^ 63) \<le> t \<and> t < 2 ^ 63 then Some t else None)"

definition height_expr :: "int \<Rightarrow> int \<Rightarrow> int \<Rightarrow> rat \<Rightarrow> int option" where
  "height_expr imgHeight width imgWidth scale = do {
     h \<leftarrow> fl (of_int imgHeight);
     w \<leftarrow> fl (of_int width);
     p \<leftarrow> fl (h * w);
     d \<leftarrow> fl (of_int imgWidth);
     q \<leftarrow> (if d = 0 then None else fl (p / d));
     r \<leftarrow> fl (q * scale);
     to_int r
   }"

text \<open>
  The expression is followed by \<^verbatim>\<open>if height == 0 { height = 1 }\<close>.  The definitions
  \<open>toASCII_seq\<close>, \<open>toASCII_par\<close> and \<open>colorASCII_par\<close> below are the functions from this
  clamp on, for a value \<open>h0\<close> of the height expression; \<open>toASCII_sequential\<close>,
  \<open>toASCII_goroutines\<close> and \<open>colorASCII_goroutines\<close> are the whole functions of the image,
  the width and the scale.
\<close>

definition clamp_height :: "int \<Rightarrow> int" where
  "clamp_height h0 = (if h0 = 0 then 1 else h0)"

section \<open>The sequential converter (one pixel per cell)\<close>

text \<open>
  \<^verbatim>\<open>gray := (299*r + 587*g + 114*b) / 1000 / 256\<close> on \<^verbatim>\<open>uint32\<close>, and
  \<^verbatim>\<open>charIndex := int(gray) * (len(palette) - 1) / 255\<close>.
\<close>

definition gray32 :: "u32 \<Rightarrow> u32 \<Rightarrow> u32 \<Rightarrow> u32" where
  "gray32 r g b = (299 * r + 587 * g + 114 * b) div 1000 div 256"

definition charIndex32 :: "u32 \<Rightarrow> int" where
  "charIndex32 gray = tdiv (uint gray * (int (length palette) - 1)) 255"

definition seq_cell :: "image \<Rightarrow> int \<Rightarrow> int \<Rightarrow> int \<Rightarrow> int \<Rightarrow> panic + char" where
  "seq_cell img width height y x =
     bindE (quo (imul x (Dx img)) width) (\<lambda>imgX.
     bindE (quo (imul y (Dy img)) height) (\<lambda>imgY.
       (case RGBA (At img imgX imgY) of (r, g, b) \<Rightarrow>
          index_string palette (charIndex32 (gray32 r g b)))))"

definition seq_line :: "image \<Rightarrow> int \<Rightarrow> int \<Rightarrow> int \<Rightarrow> panic + string" where
  "seq_line img width height y =
     for_up 0 width (\<lambda>x line. bindE (seq_cell img width height y x) (\<lambda>c. Inr (line @ [c]))) []"

definition toASCII_seq :: "image \<Rightarrow> int \<Rightarrow> int \<Rightarrow> panic + string list" where
  "toASCII_seq img width h0 =
     (let height = clamp_height h0 in
      bindE (make_strings height) (\<lambda>result.
        for_up 0 height
          (\<lambda>y result. bindE (seq_line img width height y) (\<lambda>line. store result y line))
          result))"

text \<open>
  \<^verbatim>\<open>toASCII(img, width, scale)\<close> of \<^verbatim>\<open>part_002\<close>: the height expression on the bounds of
  the image, then the rows.
\<close>

definition toASCII_sequential :: "image \<Rightarrow> int \<Rightarrow> rat \<Rightarrow> (panic + string list) option" where
  "toASCII_sequential img width scale =
     map_option (toASCII_seq img width) (height_expr (Dy img) width (Dx img) scale)"

section \<open>The goroutine-per-row converters (block average per cell)\<close>

text \<open>
  The running sums \<^verbatim>\<open>rSum, gSum, bSum uint64\<close> and \<^verbatim>\<open>pixelCount\<close> of one cell.
\<close>

record sample_sums =
  rSum :: u64
  gSum :: u64
  bSum :: u64
  pixelCount :: int

definition zero_sums :: sample_sums where
  "zero_sums = \<lparr>rSum = 0, gSum = 0, bSum = 0, pixelCount = 0\<rparr>"

definition add_sample :: "image \<Rightarrow> int \<Rightarrow> int \<Rightarrow> sample_sums \<Rightarrow> sample_sums" where
  "add_sample img py px s =
     (case RGBA (At img px py) of (r, g, b) \<Rightarrow>
        \<lparr>rSum = rSum s + ucast r, gSum = gSum s + ucast g, bSum = bSum s + ucast b,
         pixelCount = pixelCount s + 1\<rparr>)"

text \<open>\<^verbatim>\<open>if end > bound { end = bound }\<close> and \<^verbatim>\<open>stride := (end - start) / 3; if stride < 1 { stride = 1 }\<close>.\<close>

definition clamp_end :: "int \<Rightarrow> int \<Rightarrow> int" where
  "clamp_end e bound = (if e > bound then bound else e)"

definition stride_of :: "int \<Rightarrow> int \<Rightarrow> int" where
  "stride_of lo hi = (let stride = tdiv (hi - lo) 3 in if stride < 1 then 1 else stride)"

definition sample_block :: "image \<Rightarrow> int \<Rightarrow> int \<Rightarrow> int \<Rightarrow> int \<Rightarrow> sample_sums" where
  "sample_block img imgX imgXEnd imgY imgYEnd =
     (let strideX = stride_of imgX imgXEnd;
          strideY = stride_of imgY imgYEnd
      in for_stride imgY imgYEnd strideY
           (\<lambda>py s. for_stride imgX imgXEnd strideX (add_sample img py) s)
           zero_sums)"

text \<open>\<^verbatim>\<open>if pixelCount > 0 { rSum /= uint64(pixelCount); ... }\<close>\<close>

definition average :: "sample_sums \<Rightarrow> panic + sample_sums" where
  "average s =
     (if pixelCount s > 0
      then bindE (udiv64 (rSum s) (word_of_int (pixelCount s))) (\<lambda>r.
           bindE (udiv64 (gSum s) (word_of_int (pixelCount s))) (\<lambda>g.
           bindE (udiv64 (bSum s) (word_of_int (pixelCount s))) (\<lambda>b.
             Inr (s\<lparr>rSum := r, gSum := g, bSum := b\<rparr>))))
      else Inr s)"

text \<open>The window of column \<open>x\<close> in a row whose source rows are \<open>[imgY, imgYEnd)\<close>, sampled and averaged.\<close>

definition block_average :: "image \<Rightarrow> int \<Rightarrow> int \<Rightarrow> int \<Rightarrow> int \<Rightarrow> panic + sample_sums" where
  "block_average img width imgY imgYEnd x =
     bindE (quo (imul x (Dx img)) width) (\<lambda>imgX.
     bindE (quo (imul (x + 1) (Dx img)) width) (\<lambda>e.
       average (sample_block img imgX (clamp_end e (Dx img)) imgY imgYEnd)))"

definition gray64 :: "u64 \<Rightarrow> u64 \<Rightarrow> u64 \<Rightarrow> u64" where
  "gray64 r g b = (299 * r + 587 * g + 114 * b) div 1000 div 256"

text \<open>\<^verbatim>\<open>int(gray)\<close> reinterprets the \<^verbatim>\<open>uint64\<close> as a signed 64-bit value.\<close>

definition charIndex64 :: "u64 \<Rightarrow> int" where
  "charIndex64 gray = tdiv (sint gray * (int (length palette) - 1)) 255"

definition par_cell :: "image \<Rightarrow> int \<Rightarrow> int \<Rightarrow> int \<Rightarrow> int \<Rightarrow> panic + char" where
  "par_cell img width imgY imgYEnd x =
     bindE (block_average img width imgY imgYEnd x) (\<lambda>s.
       index_string palette (charIndex64 (gray64 (rSum s) (gSum s) (bSum s))))"

text \<open>
  \<^verbatim>\<open>fmt.Sprintf("\x1b[38;2;%d;%d;%dm%c\x1b[0m", r8, g8, b8, char)\<close>: \<^verbatim>\<open>%d\<close> prints a
  \<^verbatim>\<open>uint8\<close> in decimal without padding, and \<^verbatim>\<open>%c\<close> prints a palette byte as
  itself (every palette byte is ASCII).
\<close>

definition digit_char :: "nat \<Rightarrow> char" where
  "digit_char d = ''0123456789'' ! d"

function decimal :: "nat \<Rightarrow> string" where
  "decimal n = (if n < 10 then [digit_char n] else decimal (n div 10) @ [digit_char (n mod 10)])"
  by pat_completeness auto
termination
  by (relation "measure id") auto

declare decimal.simps [simp del]

definition ESC :: char where
  "ESC = CHR 0x1B"

definition reset_seq :: string where
  "reset_seq = ESC # ''[0m''"

definition sprintf_cell :: "u8 \<Rightarrow> u8 \<Rightarrow> u8 \<Rightarrow> char \<Rightarrow> string" where
  "sprintf_cell r8 g8 b8 c =
     ESC # ''[38;2;'' @ decimal (unat r8) @ '';'' @ decimal (unat g8) @ '';'' @ decimal (unat b8)
       @ ''m'' @ [c] @ reset_seq"

definition par_color_cell :: "image \<Rightarrow> int \<Rightarrow> int \<Rightarrow> int \<Rightarrow> int \<Rightarrow> panic + string" where
  "par_color_cell img width imgY imgYEnd x =
     bindE (block_average img width imgY imgYEnd x) (\<lambda>s.
       (let r8 = (ucast (drop_bit 8 (rSum s)) :: u8);
            g8 = (ucast (drop_bit 8 (gSum s)) :: u8);
            b8 = (ucast (drop_bit 8 (bSum s)) :: u8)
        in bindE (index_string palette (charIndex64 (gray64 (rSum s) (gSum s) (bSum s)))) (\<lambda>char.
             Inr (sprintf_cell r8 g8 b8 char))))"

text \<open>The body of the goroutine started for row \<open>rowIndex\<close>: the line it sends.\<close>

definition par_line :: "image \<Rightarrow> int \<Rightarrow> int \<Rightarrow> int \<Rightarrow> panic + string" where
  "par_line img width height rowIndex =
     bindE (quo (imul rowIndex (Dy img)) height) (\<lambda>imgY.
     bindE (quo (imul (rowIndex + 1) (Dy img)) height) (\<lambda>e.
       for_up 0 width
         (\<lambda>x line. bindE (par_cell img width imgY (clamp_end e (Dy img)) x) (\<lambda>c. Inr (line @ [c])))
         []))"

definition par_color_line :: "image \<Rightarrow> int \<Rightarrow> int \<Rightarrow> int \<Rightarrow> panic + string" where
  "par_color_line img width height rowIndex =
     bindE (quo (imul rowIndex (Dy img)) height) (\<lambda>imgY.
     bindE (quo (imul (rowIndex + 1) (Dy img)) height) (\<lambda>e.
       for_up 0 width
         (\<lambda>x line. bindE (par_color_cell img width imgY (clamp_end e (Dy img)) x) (\<lambda>c. Inr (line @ c)))
         []))"

text \<open>
  One goroutine per row \<open>y\<close> in \<open>[0, height)\<close> sends \<^verbatim>\<open>rowResult{index, line}\<close> on a
  channel buffered for \<open>height\<close> results; the caller receives \<open>height\<close> results and
  stores each with \<^verbatim>\<open>result[res.index] = res.line\<close>.  A schedule is the list of row
  indices in the order in which their results are received: every row exactly once.
  A panic in a goroutine ends the program.
\<close>

definition schedule :: "int \<Rightarrow> int list \<Rightarrow> bool" where
  "schedule height order = (distinct order \<and> set order = set [0..height - 1])"

fun collect :: "(int \<Rightarrow> panic + string) \<Rightarrow> int list \<Rightarrow> string list \<Rightarrow> panic + string list" where
  "collect row [] result = Inr result"
| "collect row (i # order) result =
     bindE (row i) (\<lambda>line. bindE (store result i line) (collect row order))"

definition toASCII_par :: "image \<Rightarrow> int \<Rightarrow> int \<Rightarrow> int list \<Rightarrow> panic + string list" where
  "toASCII_par img width h0 order =
     (let height = clamp_height h0 in
      bindE (make_strings height) (collect (par_line img width height) order))"

definition colorASCII_par :: "image \<Rightarrow> int \<Rightarrow> int \<Rightarrow> int list \<Rightarrow> panic + string list" where
  "colorASCII_par img width h0 order =
     (let height = clamp_height h0 in
      bindE (make_strings height) (collect (par_color_line img width height) order))"

text \<open>
  \<^verbatim>\<open>toASCII(img, width, scale)\<close> and \<^verbatim>\<open>colorASCII(img, width, scale)\<close> of
  \<^verbatim>\<open>part_001\<close>: the height expression on the bounds of the image, then the rows, received
  in the order \<open>order\<close>.
\<close>

definition toASCII_goroutines :: "image \<Rightarrow> int \<Rightarrow> rat \<Rightarrow> int list \<Rightarrow> (panic + string list) option" where
  "toASCII_goroutines img width scale order =
     map_option (\<lambda>h0. toASCII_par img width h0 order) (height_expr (Dy img) width (Dx img) scale)"

definition colorASCII_goroutines :: "image \<Rightarrow> int \<Rightarrow> rat \<Rightarrow> int list \<Rightarrow> (panic + string list) option" where
  "colorASCII_goroutines img width scale order =
     map_option (\<lambda>h0. colorASCII_par img width h0 order) (height_expr (Dy img) width (Dx img) scale)"

section \<open>Notions used in the statements\<close>

text \<open>
  The number of rounds of the loop \<^verbatim>\<open>for p := lo; p < hi; p += stride\<close> with a stride of at
  least 1.
\<close>

definition rounds :: "int \<Rightarrow> int \<Rightarrow> int \<Rightarrow> nat" where
  "rounds p hi stride = nat ((hi - p + stride - 1) div stride)"

text \<open>After \<open>n\<close> samples the count is \<open>n\<close> and no channel sum exceeds \<open>n\<close> full channels.\<close>

definition sums_ok :: "nat \<Rightarrow> sample_sums \<Rightarrow> bool" where
  "sums_ok n s \<longleftrightarrow> pixelCount s = int n \<and> unat (rSum s) \<le> 65535 * n
     \<and> unat (gSum s) \<le> 65535 * n \<and> unat (bSum s) \<le> 65535 * n"

text \<open>Channels whose averages fit in 16 bits.\<close>

definition channels_le :: "sample_sums \<Rightarrow> bool" where
  "channels_le s \<longleftrightarrow> unat (rSum s) \<le> 65535 \<and> unat (gSum s) \<le> 65535 \<and> unat (bSum s) \<le> 65535"

text \<open>
  The averaged sums of the cell in column \<open>x\<close> of row \<open>rowIndex\<close>: the row bounds as the
  goroutine of that row computes them, then the block average of the column.
\<close>

definition cell_average :: "image \<Rightarrow> int \<Rightarrow> int \<Rightarrow> int \<Rightarrow> int \<Rightarrow> panic + sample_sums" where
  "cell_average img width height rowIndex x =
     bindE (quo (imul rowIndex (Dy img)) height) (\<lambda>imgY.
     bindE (quo (imul (rowIndex + 1) (Dy img)) height) (\<lambda>e.
       block_average img width imgY (clamp_end e (Dy img)) x))"

text \<open>The palette byte chosen for averaged sums.\<close>

definition glyph_of :: "sample_sums \<Rightarrow> char" where
  "glyph_of s = palette ! nat (charIndex64 (gray64 (rSum s) (gSum s) (bSum s)))"

text \<open>
  Reading a coloured line back as a terminal does: \<^verbatim>\<open>ESC[38;2;\<close>, three unsigned decimal
  numbers separated by \<^verbatim>\<open>;\<close>, \<^verbatim>\<open>m\<close>, one byte, and \<^verbatim>\<open>ESC[0m\<close>.
  \<open>parse_cell\<close> reads one cell and returns the embedded numbers, the byte and the rest of
  the string; \<open>parse_cells n\<close> succeeds when the string is exactly \<open>n\<close> cells.
\<close>

definition is_digit :: "char \<Rightarrow> bool" where
  "is_digit c = (c \<in> set ''0123456789'')"

definition digit_val :: "char \<Rightarrow> nat" where
  "digit_val c = of_char c - 48"

fun read_digits :: "nat \<Rightarrow> string \<Rightarrow> nat \<times> string" where
  "read_digits acc [] = (acc, [])"
| "read_digits acc (c # cs) =
     (if is_digit c then read_digits (acc * 10 + digit_val c) cs else (acc, c # cs))"

definition read_nat :: "string \<Rightarrow> (nat \<times> string) option" where
  "read_nat s = (case s of [] \<Rightarrow> None
                 | c # cs \<Rightarrow> if is_digit c then Some (read_digits 0 s) else None)"

definition expect :: "string \<Rightarrow> string \<Rightarrow> string option" where
  "expect p s = (if prefix p s then Some (drop (length p) s) else None)"

definition read_char :: "string \<Rightarrow> (char \<times> string) option" where
  "read_char s = (case s of [] \<Rightarrow> None | c # cs \<Rightarrow> Some (c, cs))"

definition parse_cell :: "string \<Rightarrow> ((nat \<times> nat \<times> nat \<times> char) \<times> string) option" where
  "parse_cell s = do {
     s \<leftarrow> expect (ESC # ''[38;2;'') s;
     (r, s) \<leftarrow> read_nat s;
     s \<leftarrow> expect '';'' s;
     (g, s) \<leftarrow> read_nat s;
     s \<leftarrow> expect '';'' s;
     (b, s) \<leftarrow> read_nat s;
     s \<leftarrow> expect ''m'' s;
     (c, s) \<leftarrow> read_char s;
     s \<leftarrow> expect reset_seq s;
     Some ((r, g, b, c), s)
   }"

fun parse_cells :: "nat \<Rightarrow> string \<Rightarrow> (nat \<times> nat \<times> nat \<times> char) list option" where
  "parse_cells 0 s = (if s = [] then Some [] else None)"
| "parse_cells (Suc n) s = do {
     (c, s) \<leftarrow> parse_cell s;
     cs \<leftarrow> parse_cells n s;
     Some (c # cs)
   }"

text \<open>
  \<^verbatim>\<open>r8 := uint8(rSum >> 8)\<close> and its siblings, and the string \<^verbatim>\<open>colorASCII\<close> appends
  for averaged sums.
\<close>

definition rgb8 :: "sample_sums \<Rightarrow> u8 \<times> u8 \<times> u8" where
  "rgb8 s = (ucast (drop_bit 8 (rSum s)), ucast (drop_bit 8 (gSum s)), ucast (drop_bit 8 (bSum s)))"

definition colored :: "sample_sums \<Rightarrow> string" where
  "colored s = (case rgb8 s of (r8, g8, b8) \<Rightarrow> sprintf_cell r8 g8 b8 (glyph_of s))"

text \<open>
  The averaged sums of a cell as a value.  It is used where the cell's computation returns,
  which it does whenever \<open>width\<close> and \<open>height\<close> are not zero.
\<close>

definition avg :: "image \<Rightarrow> int \<Rightarrow> int \<Rightarrow> int \<Rightarrow> int \<Rightarrow> sample_sums" where
  "avg img width height y x = projr (cell_average img width height y x)"

text \<open>The glyph of a single pixel, as the sequential converters choose it.\<close>

definition pixel_glyph :: "color \<Rightarrow> char" where
  "pixel_glyph c = (case RGBA c of (r, g, b) \<Rightarrow> palette ! nat (charIndex32 (gray32 r g b)))"

text \<open>
  Concrete images.  Outside its bounds a decoded image returns the zero colour.
\<close>

definition black :: color where
  "black = \<lparr>red = 0, green = 0, blue = 0\<rparr>"

definition white :: color where
  "white = \<lparr>red = 0xFFFF, green = 0xFFFF, blue = 0xFFFF\<rparr>"

definition white1x1 :: image where
  "white1x1 = \<lparr>Dx = 1, Dy = 1, At = (\<lambda>x y. if x = 0 \<and> y = 0 then white else black)\<rparr>"

definition split2x2 :: image where
  "split2x2 = \<lparr>Dx = 2, Dy = 2, At = (\<lambda>x y. if x = 1 \<and> (y = 0 \<or> y = 1) then white else black)\<rparr>"

definition split2x1 :: image where
  "split2x1 = \<lparr>Dx = 2, Dy = 1, At = (\<lambda>x y. if x = 1 \<and> y = 0 then white else black)\<rparr>"

text \<open>
  The specification's sequential mode of the row scheduler (\<open>iterate rows 0..H_out-1 in
  order, building the result list directly\<close>), over the row computation of
  \<^verbatim>\<open>part_001\<close>.  The repository has no such function; it is what the goroutines and the
  channel are compared with.
\<close>

definition toASCII_in_order :: "image \<Rightarrow> int \<Rightarrow> int \<Rightarrow> panic + string list" where
  "toASCII_in_order img width h0 =
     (let height = clamp_height h0 in
      bindE (make_strings height) (\<lambda>result.
        for_up 0 height
          (\<lambda>y result. bindE (par_line img width height y) (\<lambda>line. store result y line))
          result))"

text \<open>
  What the goroutine of row \<open>rowIndex\<close> appends for column \<open>x\<close>, in \<^verbatim>\<open>toASCII\<close> and
  in \<^verbatim>\<open>colorASCII\<close>.
\<close>

definition plain_cell :: "image \<Rightarrow> int \<Rightarrow> int \<Rightarrow> int \<Rightarrow> int \<Rightarrow> panic + char" where
  "plain_cell img width height rowIndex x =
     bindE (quo (imul rowIndex (Dy img)) height) (\<lambda>imgY.
     bindE (quo (imul (rowIndex + 1) (Dy img)) height) (\<lambda>e.
       par_cell img width imgY (clamp_end e (Dy img)) x))"

definition color_cell :: "image \<Rightarrow> int \<Rightarrow> int \<Rightarrow> int \<Rightarrow> int \<Rightarrow> panic + string" where
  "color_cell img width height rowIndex x =
     bindE (quo (imul rowIndex (Dy img)) height) (\<lambda>imgY.
     bindE (quo (imul (rowIndex + 1) (Dy img)) height) (\<lambda>e.
       par_color_cell img width imgY (clamp_end e (Dy img)) x))"

text \<open>
  The clamped window of a cell is empty in some axis: its end is not beyond its start.
\<close>

definition empty_window :: "image \<Rightarrow> int \<Rightarrow> int \<Rightarrow> int \<Rightarrow> int \<Rightarrow> bool" where
  "empty_window img width height rowIndex x =
     (clamp_end (tdiv (imul (x + 1) (Dx img)) width) (Dx img) \<le> tdiv (imul x (Dx img)) width
      \<or> clamp_end (tdiv (imul (rowIndex + 1) (Dy img)) height) (Dy img) \<le> tdiv (imul rowIndex (Dy img)) height)"

text \<open>
  The output height of the specification: \<open>H * W_out / W * s\<close> floored to an integer, and
  1 if that is 0.  It is written from the specification's words, in exact arithmetic.
\<close>

definition H_out :: "image \<Rightarrow> int \<Rightarrow> rat \<Rightarrow> int" where
  "H_out img W_out s =
     (let h = \<lfloor>of_int (Dy img) * of_int W_out / of_int (Dx img) * s\<rfloor> in if h = 0 then 1 else h)"

text \<open>A black image 7 pixels wide and 8 pixels high.\<close>

definition black7x8 :: image where
  "black7x8 = \<lparr>Dx = 7, Dy = 8, At = (\<lambda>x y. black)\<rparr>"

text \<open>
  For the analysis of the rounding: one rounding of a normal number changes it by a
  factor between \<open>1 / ulp_c\<close> and \<open>ulp_c\<close>, where \<open>ulp_c = 2^53 / (2^53 - 1)\<close>, and
  \<open>near k a x\<close> says that \<open>x\<close> is the positive number \<open>a\<close> up to \<open>k\<close> such factors.
\<close>

definition ulp_c :: rat where
  "ulp_c = 9007199254740992 / 9007199254740991"

definition near :: "nat \<Rightarrow> rat \<Rightarrow> rat \<Rightarrow> bool" where
  "near k a x \<longleftrightarrow> 0 < a \<and> 0 < x \<and> x \<le> a * ulp_c ^ k \<and> a \<le> x * ulp_c ^ k"

section \<open>Proofs\<close>

lemma bindE_Inr [simp]: "bindE (Inr v) f = f v"
  by (simp add: bindE_def)

lemma bindE_Inl [simp]: "bindE (Inl e) f = Inl e"
  by (simp add: bindE_def)

lemma tdiv_nonneg: "0 \<le> a \<Longrightarrow> 0 < b \<Longrightarrow> tdiv a b = a div b"
  by (cases "a = 0") (simp_all add: tdiv_def)

lemma quo_Inr: "b \<noteq> 0 \<Longrightarrow> quo a b = Inr (tdiv a b)"
  by (simp add: quo_def)

text \<open>A product that fits 31 bits does not wrap, whether \<^verbatim>\<open>int\<close> has 32 or 64 bits.\<close>

lemma wrap_id: "- (2 ^ 63) \<le> v \<Longrightarrow> v < 2 ^ 63 \<Longrightarrow> wrap v = v"
  unfolding wrap_def by (rule signed_take_bit_int_eq_self)

lemma imul_small:
  assumes "0 \<le> a" "a \<le> c" "0 \<le> b" "c * b < 2 ^ 31"
  shows "imul a b = a * b"
proof -
  have "a * b \<le> c * b" using assms(2,3) by (rule mult_right_mono)
  then have "a * b < 2 ^ 31" using assms(4) by simp
  then have "a * b < 2 ^ 63" by simp
  moreover have "0 \<le> a * b" using assms(1,3) by simp
  then have "- (2 ^ 63) \<le> a * b" by simp
  ultimately show ?thesis unfolding imul_def by (intro wrap_id)
qed

lemma imul_zero: "imul 0 b = 0"
  by (simp add: imul_def wrap_def)

lemma clamp_height_nonzero: "clamp_height h0 \<noteq> 0"
  by (simp add: clamp_height_def)

lemma clamp_height_pos: "0 \<le> h0 \<Longrightarrow> 0 < clamp_height h0"
  by (simp add: clamp_height_def)

lemma for_up_done: "\<not> i < hi \<Longrightarrow> for_up i hi body s = Inr s"
  by (subst for_up.simps) simp

lemma for_up_step:
  "i < hi \<Longrightarrow> body i s = Inr s' \<Longrightarrow> for_up i hi body s = for_up (i + 1) hi body s'"
  by (subst for_up.simps) simp

text \<open>A loop that appends one piece per index builds the concatenation of the pieces.\<close>

lemma for_up_append:
  assumes "\<And>i. lo \<le> i \<Longrightarrow> i < hi \<Longrightarrow> f i = Inr (g i)"
  shows "for_up lo hi (\<lambda>x line. bindE (f x) (\<lambda>c. Inr (line @ h c))) acc
         = Inr (acc @ concat (map (\<lambda>i. h (g i)) [lo..hi - 1]))"
  using assms
proof (induction "nat (hi - lo)" arbitrary: lo acc)
  case 0
  then have "\<not> lo < hi" by simp
  then show ?case by (simp add: for_up_done)
next
  case (Suc n)
  then have lt: "lo < hi" by simp
  have fi: "f lo = Inr (g lo)" using Suc.prems lt by simp
  have up: "[lo..hi - 1] = lo # [lo + 1..hi - 1]"
    using lt by (simp add: upto_rec1)
  have "for_up lo hi (\<lambda>x line. bindE (f x) (\<lambda>c. Inr (line @ h c))) acc
        = for_up (lo + 1) hi (\<lambda>x line. bindE (f x) (\<lambda>c. Inr (line @ h c))) (acc @ h (g lo))"
    using lt fi by (intro for_up_step) simp_all
  also have "\<dots> = Inr ((acc @ h (g lo)) @ concat (map (\<lambda>i. h (g i)) [lo + 1..hi - 1]))"
  proof (rule Suc.hyps(1))
    show "n = nat (hi - (lo + 1))" using Suc.hyps(2) by simp
    show "\<And>i. lo + 1 \<le> i \<Longrightarrow> i < hi \<Longrightarrow> f i = Inr (g i)" using Suc.prems by simp
  qed
  finally show ?case by (simp add: up)
qed

text \<open>Filling the slots \<open>lo, \<dots>, hi - 1\<close> of a slice in ascending order.\<close>

lemma for_up_store:
  assumes "\<And>y. lo \<le> y \<Longrightarrow> y < hi \<Longrightarrow> row y = Inr (r y)"
    and "0 \<le> lo" and "hi \<le> int (length res)"
  shows "for_up lo hi (\<lambda>y res. bindE (row y) (\<lambda>line. store res y line)) res
         = Inr (map (\<lambda>j. if lo \<le> int j \<and> int j < hi then r (int j) else res ! j) [0..<length res])"
  using assms
proof (induction "nat (hi - lo)" arbitrary: lo res)
  case 0
  then have nlt: "\<not> lo < hi" by simp
  then have "map (\<lambda>j. if lo \<le> int j \<and> int j < hi then r (int j) else res ! j) [0..<length res] = res"
    by (intro nth_equalityI) auto
  with nlt show ?case by (simp add: for_up_done)
next
  case (Suc n)
  then have lt: "lo < hi" by simp
  have ri: "row lo = Inr (r lo)" using Suc.prems(1) lt by simp
  have st: "store res lo (r lo) = Inr (res[nat lo := r lo])"
    using lt Suc.prems(2,3) by (simp add: store_def)
  have "for_up lo hi (\<lambda>y res. bindE (row y) (\<lambda>line. store res y line)) res
        = for_up (lo + 1) hi (\<lambda>y res. bindE (row y) (\<lambda>line. store res y line)) (res[nat lo := r lo])"
    using lt ri st by (intro for_up_step) simp_all
  also have "\<dots> = Inr (map (\<lambda>j. if lo + 1 \<le> int j \<and> int j < hi then r (int j)
                                else res[nat lo := r lo] ! j)
                          [0..<length (res[nat lo := r lo])])"
  proof (rule Suc.hyps(1))
    show "n = nat (hi - (lo + 1))" using Suc.hyps(2) by simp
    show "\<And>y. lo + 1 \<le> y \<Longrightarrow> y < hi \<Longrightarrow> row y = Inr (r y)" using Suc.prems(1) by simp
    show "0 \<le> lo + 1" using Suc.prems(2) by simp
    show "hi \<le> int (length (res[nat lo := r lo]))" using Suc.prems(3) by simp
  qed
  also have "map (\<lambda>j. if lo + 1 \<le> int j \<and> int j < hi then r (int j) else res[nat lo := r lo] ! j)
               [0..<length (res[nat lo := r lo])]
             = map (\<lambda>j. if lo \<le> int j \<and> int j < hi then r (int j) else res ! j) [0..<length res]"
  proof (rule nth_equalityI)
    show "length (map (\<lambda>j. if lo + 1 \<le> int j \<and> int j < hi then r (int j) else res[nat lo := r lo] ! j)
               [0..<length (res[nat lo := r lo])])
          = length (map (\<lambda>j. if lo \<le> int j \<and> int j < hi then r (int j) else res ! j) [0..<length res])"
      by simp
  next
    fix j
    assume "j < length (map (\<lambda>j. if lo + 1 \<le> int j \<and> int j < hi then r (int j) else res[nat lo := r lo] ! j)
               [0..<length (res[nat lo := r lo])])"
    then have j: "j < length res" by simp
    show "map (\<lambda>j. if lo + 1 \<le> int j \<and> int j < hi then r (int j) else res[nat lo := r lo] ! j)
               [0..<length (res[nat lo := r lo])] ! j
          = map (\<lambda>j. if lo \<le> int j \<and> int j < hi then r (int j) else res ! j) [0..<length res] ! j"
    proof (cases "int j = lo")
      case True
      then have "nat lo = j" by simp
      with True j lt show ?thesis by simp
    next
      case False
      then have "nat lo \<noteq> j" using Suc.prems(2) by auto
      with False j show ?thesis by (simp add: nth_list_update)
    qed
  qed
  finally show ?case .
qed

text \<open>Filling slots in the order of a list of indices.\<close>

lemma collect_store:
  assumes "\<And>i. i \<in> set order \<Longrightarrow> row i = Inr (r i) \<and> 0 \<le> i \<and> i < int (length res)"
  shows "collect row order res
         = Inr (map (\<lambda>j. if int j \<in> set order then r (int j) else res ! j) [0..<length res])"
  using assms
proof (induction order arbitrary: res)
  case Nil
  have "map (\<lambda>j. res ! j) [0..<length res] = res" by (rule map_nth)
  then show ?case by simp
next
  case (Cons i order)
  have ri: "row i = Inr (r i)" and bi: "0 \<le> i" "i < int (length res)"
    using Cons.prems[of i] by simp_all
  have st: "store res i (r i) = Inr (res[nat i := r i])"
    using bi by (simp add: store_def)
  have "collect row (i # order) res = collect row order (res[nat i := r i])"
    using ri st by simp
  also have "\<dots> = Inr (map (\<lambda>j. if int j \<in> set order then r (int j) else res[nat i := r i] ! j)
                        [0..<length (res[nat i := r i])])"
    using Cons.prems by (intro Cons.IH) auto
  also have "map (\<lambda>j. if int j \<in> set order then r (int j) else res[nat i := r i] ! j)
               [0..<length (res[nat i := r i])]
             = map (\<lambda>j. if int j \<in> set (i # order) then r (int j) else res ! j) [0..<length res]"
    using bi by (auto simp: nth_list_update)
  finally show ?case .
qed

lemma schedule_mem: "schedule height order \<Longrightarrow> i \<in> set order \<longleftrightarrow> 0 \<le> i \<and> i < height"
  by (auto simp: schedule_def)

lemma collect_schedule:
  assumes "schedule height order" and "\<And>i. 0 \<le> i \<Longrightarrow> i < height \<Longrightarrow> row i = Inr (r i)"
    and "0 \<le> height"
  shows "collect row order (replicate (nat height) []) = Inr (map (\<lambda>j. r (int j)) [0..<nat height])"
proof -
  have "collect row order (replicate (nat height) [])
        = Inr (map (\<lambda>j. if int j \<in> set order then r (int j) else replicate (nat height) [] ! j)
                 [0..<length (replicate (nat height) ([]::string))])"
    using assms by (intro collect_store) (auto simp: schedule_mem)
  also have "map (\<lambda>j. if int j \<in> set order then r (int j) else replicate (nat height) [] ! j)
                 [0..<length (replicate (nat height) ([]::string))]
             = map (\<lambda>j. r (int j)) [0..<nat height]"
    using assms(1,3) by (auto simp: schedule_mem)
  finally show ?thesis .
qed

lemma for_up_rows:
  assumes "\<And>i. 0 \<le> i \<Longrightarrow> i < height \<Longrightarrow> row i = Inr (r i)" and "0 \<le> height"
  shows "for_up 0 height (\<lambda>y res. bindE (row y) (\<lambda>line. store res y line))
           (replicate (nat height) ([]::string))
         = Inr (map (\<lambda>j. r (int j)) [0..<nat height])"
proof -
  have "for_up 0 height (\<lambda>y res. bindE (row y) (\<lambda>line. store res y line))
           (replicate (nat height) ([]::string))
        = Inr (map (\<lambda>j. if 0 \<le> int j \<and> int j < height then r (int j)
                         else replicate (nat height) ([]::string) ! j)
                 [0..<length (replicate (nat height) ([]::string))])"
    using assms by (intro for_up_store) simp_all
  also have "map (\<lambda>j. if 0 \<le> int j \<and> int j < height then r (int j)
                       else replicate (nat height) ([]::string) ! j)
                 [0..<length (replicate (nat height) ([]::string))]
             = map (\<lambda>j. r (int j)) [0..<nat height]"
    using assms(2) by auto
  finally show ?thesis .
qed

lemma unat_u16_le: "unat (c :: u16) \<le> 65535"
proof -
  have "unat c < 2 ^ LENGTH(16)" by (rule unsigned_less)
  then show ?thesis by simp
qed

lemma unat_ucast_16_32: "unat (ucast (c :: u16) :: u32) = unat c"
proof -
  have "unat c < 2 ^ 32" using unat_u16_le[of c] by simp
  then show ?thesis by (simp add: unsigned_ucast_eq take_bit_nat_eq_self)
qed

lemma unat_ucast_32_64: "unat (ucast (c :: u32) :: u64) = unat c"
proof -
  have "unat c < 2 ^ LENGTH(32)" by (rule unsigned_less)
  then have "unat c < 2 ^ 64" by simp
  then show ?thesis by (simp add: unsigned_ucast_eq take_bit_nat_eq_self)
qed

lemma gray32_le:
  fixes r g b :: u32
  assumes "unat r \<le> 65535" "unat g \<le> 65535" "unat b \<le> 65535"
  shows "unat (gray32 r g b) \<le> 255"
proof -
  have s: "299 * unat r + 587 * unat g + 114 * unat b \<le> 65535000" using assms by simp
  have "unat (299 * r + 587 * g + 114 * b) = 299 * unat r + 587 * unat g + 114 * unat b"
    using s by (simp add: unat_word_ariths)
  then have "unat (gray32 r g b) = (299 * unat r + 587 * unat g + 114 * unat b) div 1000 div 256"
    by (simp add: gray32_def unat_div)
  also have "\<dots> \<le> 65535000 div 1000 div 256"
    using s by (intro div_le_mono)
  finally show ?thesis by simp
qed

lemma length_palette: "length palette = 10"
  by (simp add: palette_def)

lemma index_range:
  fixes g :: int
  assumes "0 \<le> g" "g \<le> 255"
  shows "0 \<le> tdiv (g * 9) 255 \<and> tdiv (g * 9) 255 \<le> 9"
proof -
  have "tdiv (g * 9) 255 = (g * 9) div 255"
    using assms by (intro tdiv_nonneg) simp_all
  moreover have "0 \<le> (g * 9) div 255 \<and> (g * 9) div 255 \<le> 9"
    using assms by linarith
  ultimately show ?thesis by simp
qed

lemma charIndex32_range:
  assumes "unat gray \<le> 255"
  shows "0 \<le> charIndex32 gray \<and> charIndex32 gray \<le> 9"
proof -
  have "uint gray = int (unat gray)" by (rule uint_nat)
  then have u: "0 \<le> uint gray" "uint gray \<le> 255" using assms by linarith+
  have "charIndex32 gray = tdiv (uint gray * 9) 255"
    by (simp add: charIndex32_def length_palette)
  then show ?thesis using index_range[OF u] by simp
qed

lemma charIndex64_range:
  assumes "unat gray \<le> 255"
  shows "0 \<le> charIndex64 gray \<and> charIndex64 gray \<le> 9"
proof -
  have "uint gray = int (unat gray)" by (rule uint_nat)
  then have u: "0 \<le> uint gray" "uint gray \<le> 255" using assms by linarith+
  have "- (2 ^ 63) \<le> (0::int)" by simp
  then have "- (2 ^ 63) \<le> uint gray" using u(1) by (rule order_trans)
  moreover have "(255::int) < 2 ^ 63" by simp
  then have "uint gray < 2 ^ 63" using u(2) by (rule le_less_trans[rotated])
  ultimately have "- (2 ^ 63) \<le> uint gray" "uint gray < 2 ^ 63" .
  then have "signed_take_bit 63 (uint gray) = uint gray"
    by (rule signed_take_bit_int_eq_self)
  then have "sint gray = uint gray" by (simp add: sint_uint)
  then have "charIndex64 gray = tdiv (uint gray * 9) 255"
    by (simp add: charIndex64_def length_palette)
  then show ?thesis using index_range[OF u] by simp
qed

lemma gray64_le:
  fixes r g b :: u64
  assumes "unat r \<le> 65535" "unat g \<le> 65535" "unat b \<le> 65535"
  shows "unat (gray64 r g b) \<le> 255"
proof -
  have s: "299 * unat r + 587 * unat g + 114 * unat b \<le> 65535000" using assms by simp
  have "unat (299 * r + 587 * g + 114 * b) = 299 * unat r + 587 * unat g + 114 * unat b"
    using s by (simp add: unat_word_ariths)
  then have "unat (gray64 r g b) = (299 * unat r + 587 * unat g + 114 * unat b) div 1000 div 256"
    by (simp add: gray64_def unat_div)
  also have "\<dots> \<le> 65535000 div 1000 div 256"
    using s by (intro div_le_mono)
  finally show ?thesis by simp
qed

lemma index_string_palette:
  assumes "0 \<le> i \<and> i \<le> 9"
  shows "index_string palette i = Inr (palette ! nat i) \<and> palette ! nat i \<in> set palette"
proof -
  have "nat i < length palette" using assms unfolding length_palette by linarith
  then have "palette ! nat i \<in> set palette" by (rule nth_mem)
  moreover have "index_string palette i = Inr (palette ! nat i)"
    using assms by (simp add: index_string_def length_palette)
  ultimately show ?thesis by simp
qed

lemma div_less_bound:
  fixes x s k :: int
  assumes "0 < s" "x < k * s"
  shows "x div s < k"
proof -
  have "x div s * s + x mod s = x" by simp
  moreover have "0 \<le> x mod s" using assms(1) by simp
  ultimately have "x div s * s \<le> x" by linarith
  then have "x div s * s < k * s" using assms(2) by linarith
  then show ?thesis using assms(1) by (simp add: mult_less_cancel_right)
qed

lemma rounds_done: "1 \<le> stride \<Longrightarrow> \<not> p < hi \<Longrightarrow> rounds p hi stride = 0"
proof -
  assume a: "1 \<le> stride" "\<not> p < hi"
  then have "hi - p + stride - 1 < 1 * stride" by simp
  then have "(hi - p + stride - 1) div stride < 1"
    using a(1) by (intro div_less_bound) simp_all
  then show ?thesis by (simp add: rounds_def)
qed

lemma rounds_step:
  assumes "1 \<le> stride" "p < hi"
  shows "rounds p hi stride = Suc (rounds (p + stride) hi stride)"
proof -
  define a where "a = hi - (p + stride) + stride - 1"
  have "hi - p + stride - 1 = a + stride" by (simp add: a_def)
  moreover have "(a + stride) div stride = a div stride + 1"
    using assms(1) by (intro div_add_self2) simp
  ultimately have "(hi - p + stride - 1) div stride = a div stride + 1"
    by (simp only:)
  moreover have "0 \<le> a" using assms(2) by (simp add: a_def)
  then have "0 \<le> a div stride"
    using assms(1) by (intro pos_imp_zdiv_nonneg_iff[THEN iffD2]) simp_all
  ultimately show ?thesis by (simp add: rounds_def a_def)
qed

lemma for_stride_rounds:
  assumes "1 \<le> stride" and "P 0 s" and "\<And>k q t. P k t \<Longrightarrow> P (Suc k) (body q t)"
  shows "P (rounds p hi stride) (for_stride p hi stride body s)"
  using assms(2,3)
proof (induction "nat (hi - p)" arbitrary: p s P rule: less_induct)
  case less
  show ?case
  proof (cases "p < hi")
    case False
    then have "for_stride p hi stride body s = s" by (subst for_stride.simps) simp
    then show ?thesis using less.prems(1) rounds_done[OF assms(1) False] by simp
  next
    case True
    have eq: "for_stride p hi stride body s = for_stride (p + stride) hi stride body (body p s)"
      using True assms(1) by (subst for_stride.simps) simp
    have "(\<lambda>k. P (Suc k)) (rounds (p + stride) hi stride) (for_stride (p + stride) hi stride body (body p s))"
    proof (rule less.hyps)
      show "nat (hi - (p + stride)) < nat (hi - p)" using True assms(1) by simp
      show "P (Suc 0) (body p s)" using less.prems by simp
      show "\<And>k q t. P (Suc k) t \<Longrightarrow> P (Suc (Suc k)) (body q t)" using less.prems(2) by simp
    qed
    then show ?thesis using eq rounds_step[OF assms(1) True] by simp
  qed
qed

lemma for_stride_empty: "\<not> p < hi \<Longrightarrow> for_stride p hi stride body s = s"
  by (subst for_stride.simps) simp

lemma for_stride_once:
  "p < hi \<Longrightarrow> hi \<le> p + stride \<Longrightarrow> 1 \<le> stride \<Longrightarrow> for_stride p hi stride body s = body p s"
  by (subst for_stride.simps) (simp add: for_stride_empty)

text \<open>A stride of a third of the extent (at least 1) visits at most five points.\<close>

lemma stride_of_ge1: "1 \<le> stride_of lo hi"
  by (simp add: stride_of_def Let_def)

lemma rounds_stride_of_le: "rounds lo hi (stride_of lo hi) \<le> 5"
proof (cases "hi - lo < 3")
  case True
  show ?thesis
  proof (cases "lo < hi")
    case False
    then show ?thesis using rounds_done[OF stride_of_ge1 False] by simp
  next
    case lt: True
    have "tdiv (hi - lo) 3 = (hi - lo) div 3" using lt by (intro tdiv_nonneg) simp_all
    also have "\<dots> = 0" using True lt by simp
    finally have "stride_of lo hi = 1" by (simp add: stride_of_def)
    then show ?thesis using True by (simp add: rounds_def)
  qed
next
  case False
  define d where "d = hi - lo"
  define s where "s = d div 3"
  have d3: "3 \<le> d" using False by (simp add: d_def)
  have "tdiv d 3 = d div 3" using d3 by (intro tdiv_nonneg) simp_all
  moreover have s1: "1 \<le> s" using d3 unfolding s_def by linarith
  ultimately have st: "stride_of lo hi = s" by (simp add: stride_of_def d_def s_def)
  have "d \<le> 3 * s + 2" unfolding s_def by linarith
  then have "d + s - 1 < 6 * s" using s1 by linarith
  then have "(d + s - 1) div s < 6" using s1
    by (intro div_less_bound) simp_all
  then show ?thesis by (simp add: rounds_def st d_def[symmetric])
qed

lemma rounds_pos: "1 \<le> stride \<Longrightarrow> p < hi \<Longrightarrow> 1 \<le> rounds p hi stride"
  by (simp add: rounds_step)

lemma sums_ok_zero: "sums_ok 0 zero_sums"
  by (simp add: sums_ok_def zero_sums_def)

lemma unat_add_channel:
  fixes a :: u64 and c :: u16
  assumes "unat a \<le> 65535 * n" "n < 25"
  shows "unat (a + ucast (ucast c :: u32)) \<le> 65535 * Suc n"
proof -
  have c: "unat (ucast (ucast c :: u32) :: u64) = unat c"
    by (simp only: unat_ucast_32_64 unat_ucast_16_32)
  have "unat a + unat c \<le> 65535 * n + 65535" using assms(1) unat_u16_le[of c] by linarith
  moreover have "65535 * n + 65535 < (2::nat) ^ 64" using assms(2) by simp
  ultimately have "unat (a + ucast (ucast c :: u32)) = unat a + unat c"
    using c by (simp add: unat_word_ariths)
  then show ?thesis using assms(1) unat_u16_le[of c] by simp
qed

lemma add_sample_ok:
  assumes "sums_ok n s" "n < 25"
  shows "sums_ok (Suc n) (add_sample img py px s)"
  using assms unat_add_channel[of _ n]
  by (simp add: sums_ok_def add_sample_def RGBA_def)

lemma inner_loop_ok:
  assumes "1 \<le> stride" "sums_ok c s" "c + rounds p hi stride \<le> 25"
  shows "sums_ok (c + rounds p hi stride) (for_stride p hi stride (add_sample img py) s)"
proof -
  let ?P = "\<lambda>k t. c + k \<le> 25 \<longrightarrow> sums_ok (c + k) t"
  have "?P (rounds p hi stride) (for_stride p hi stride (add_sample img py) s)"
  proof (rule for_stride_rounds[where P = ?P, OF assms(1)])
    show "?P 0 s" using assms(2) by simp
  next
    fix k q t
    assume "?P k t"
    then show "?P (Suc k) (add_sample img py q t)"
      using add_sample_ok[of "c + k" t img py q] by simp
  qed
  then show ?thesis using assms(3) by simp
qed

lemma sample_block_ok:
  "sums_ok (rounds imgY imgYEnd (stride_of imgY imgYEnd) * rounds imgX imgXEnd (stride_of imgX imgXEnd))
     (sample_block img imgX imgXEnd imgY imgYEnd)"
proof -
  let ?nx = "rounds imgX imgXEnd (stride_of imgX imgXEnd)"
  let ?ny = "rounds imgY imgYEnd (stride_of imgY imgYEnd)"
  have nx5: "?nx \<le> 5" and ny5: "?ny \<le> 5" by (simp_all add: rounds_stride_of_le)
  let ?P = "\<lambda>k t. k \<le> ?ny \<longrightarrow> sums_ok (k * ?nx) t"
  have "?P ?ny (for_stride imgY imgYEnd (stride_of imgY imgYEnd)
           (\<lambda>py s. for_stride imgX imgXEnd (stride_of imgX imgXEnd) (add_sample img py) s) zero_sums)"
  proof (rule for_stride_rounds[where P = ?P, OF stride_of_ge1], goal_cases)
    case 1
    show ?case using sums_ok_zero by simp
  next
    case (2 k q t)
    show ?case
    proof
      assume k: "Suc k \<le> ?ny"
      then have ok: "sums_ok (k * ?nx) t" using 2 by simp
      have "Suc k * ?nx \<le> 5 * 5" using k ny5 nx5 by (intro mult_le_mono) simp_all
      then have "k * ?nx + ?nx \<le> 25" by simp
      then have "sums_ok (k * ?nx + ?nx)
                   (for_stride imgX imgXEnd (stride_of imgX imgXEnd) (add_sample img q) t)"
        using ok by (intro inner_loop_ok stride_of_ge1)
      then show "sums_ok (Suc k * ?nx)
                   (for_stride imgX imgXEnd (stride_of imgX imgXEnd) (add_sample img q) t)"
        by (simp add: add.commute)
    qed
  qed
  then show ?thesis by (simp add: sample_block_def Let_def)
qed

lemma sample_block_count_le:
  "rounds imgY imgYEnd (stride_of imgY imgYEnd) * rounds imgX imgXEnd (stride_of imgX imgXEnd) \<le> 25"
proof -
  have "rounds imgY imgYEnd (stride_of imgY imgYEnd) * rounds imgX imgXEnd (stride_of imgX imgXEnd) \<le> 5 * 5"
    by (intro mult_le_mono rounds_stride_of_le)
  then show ?thesis by simp
qed

lemma unat_div_count:
  fixes a :: u64
  assumes "unat a \<le> 65535 * n" "0 < n" "n \<le> 25"
  shows "word_of_int (int n) \<noteq> (0::u64) \<and> unat (a div word_of_int (int n)) \<le> 65535"
proof -
  have "(word_of_int (int n) :: u64) = of_nat n" by simp
  moreover have n: "unat (of_nat n :: u64) = n"
    using assms(3) by (simp add: unat_of_nat)
  ultimately have w: "unat (word_of_int (int n) :: u64) = n" by simp
  then have nz: "word_of_int (int n) \<noteq> (0::u64)" using assms(2) by auto
  have "unat (a div word_of_int (int n)) = unat a div n" by (simp only: unat_div w)
  also have "\<dots> \<le> (65535 * n) div n" using assms(1) by (intro div_le_mono)
  also have "\<dots> = 65535" using assms(2) by simp
  finally show ?thesis using nz by simp
qed

lemma average_ok:
  assumes "sums_ok n s" "n \<le> 25"
  shows "\<exists>a. average s = Inr a \<and> channels_le a \<and> pixelCount a = int n"
proof (cases "n = 0")
  case True
  then have "average s = Inr s" "channels_le s" using assms(1)
    by (simp_all add: average_def sums_ok_def channels_le_def)
  then show ?thesis using assms(1) by (simp add: sums_ok_def)
next
  case False
  then have n0: "0 < n" by simp
  have pc: "pixelCount s = int n" using assms(1) by (simp add: sums_ok_def)
  have r: "word_of_int (int n) \<noteq> (0::u64)" "unat (rSum s div word_of_int (int n)) \<le> 65535"
    using assms(1) unat_div_count[of "rSum s" n, OF _ n0 assms(2)] by (simp_all add: sums_ok_def)
  have g: "unat (gSum s div word_of_int (int n)) \<le> 65535"
    using assms(1) unat_div_count[of "gSum s" n, OF _ n0 assms(2)] by (simp add: sums_ok_def)
  have b: "unat (bSum s div word_of_int (int n)) \<le> 65535"
    using assms(1) unat_div_count[of "bSum s" n, OF _ n0 assms(2)] by (simp add: sums_ok_def)
  have "average s = Inr (s\<lparr>rSum := rSum s div word_of_int (int n),
                           gSum := gSum s div word_of_int (int n),
                           bSum := bSum s div word_of_int (int n)\<rparr>)"
    using n0 r(1) by (simp add: average_def pc udiv64_def)
  then show ?thesis using r g b pc by (simp add: channels_le_def)
qed

lemma block_average_ok:
  assumes "width \<noteq> 0"
  shows "\<exists>a. block_average img width imgY imgYEnd x = Inr a \<and> channels_le a
           \<and> pixelCount a = int (rounds imgY imgYEnd (stride_of imgY imgYEnd)
                 * rounds (tdiv (imul x (Dx img)) width) (clamp_end (tdiv (imul (x + 1) (Dx img)) width) (Dx img))
                     (stride_of (tdiv (imul x (Dx img)) width) (clamp_end (tdiv (imul (x + 1) (Dx img)) width) (Dx img))))"
  using assms average_ok[OF sample_block_ok sample_block_count_le]
  by (simp add: block_average_def quo_Inr)

lemma digit_char_props: "d < 10 \<Longrightarrow> is_digit (digit_char d) \<and> digit_val (digit_char d) = d"
proof -
  assume "d < 10"
  then have "d \<in> {0,1,2,3,4,5,6,7,8,9}" by auto
  then show ?thesis
    by (auto simp: digit_char_def is_digit_def digit_val_def)
qed

lemma decimal_nonempty: "decimal n \<noteq> []"
  by (subst decimal.simps) simp

lemma read_digits_decimal:
  "read_digits acc (decimal n @ rest) = read_digits (acc * 10 ^ length (decimal n) + n) rest"
proof (induction n arbitrary: acc rest rule: decimal.induct)
  case (1 n)
  show ?case
  proof (cases "n < 10")
    case True
    then have "decimal n = [digit_char n]" by (subst decimal.simps) simp
    then show ?thesis using digit_char_props[OF True] by simp
  next
    case False
    have d: "decimal n = decimal (n div 10) @ [digit_char (n mod 10)]"
      using False by (subst decimal.simps) simp
    have m: "n mod 10 < 10" by simp
    have "read_digits acc (decimal n @ rest)
          = read_digits acc (decimal (n div 10) @ (digit_char (n mod 10) # rest))"
      by (simp add: d)
    also have "\<dots> = read_digits (acc * 10 ^ length (decimal (n div 10)) + n div 10)
                        (digit_char (n mod 10) # rest)"
      using False by (intro 1) 
    also have "\<dots> = read_digits ((acc * 10 ^ length (decimal (n div 10)) + n div 10) * 10 + n mod 10) rest"
      using digit_char_props[OF m] by simp
    also have "(acc * 10 ^ length (decimal (n div 10)) + n div 10) * 10 + n mod 10
               = acc * 10 ^ length (decimal n) + n"
      by (simp add: d algebra_simps)
    finally show ?thesis .
  qed
qed

lemma is_digit_hd_decimal: "\<exists>c cs. decimal n = c # cs \<and> is_digit c"
proof (induction n rule: decimal.induct)
  case (1 n)
  show ?case
  proof (cases "n < 10")
    case True
    then have "decimal n = [digit_char n]" by (subst decimal.simps) simp
    then show ?thesis using digit_char_props[OF True] by simp
  next
    case False
    have d: "decimal n = decimal (n div 10) @ [digit_char (n mod 10)]"
      using False by (subst decimal.simps) simp
    from 1[OF False] obtain c cs where "decimal (n div 10) = c # cs" "is_digit c" by blast
    then show ?thesis using d by simp
  qed
qed

lemma read_nat_decimal:
  assumes "rest = [] \<or> \<not> is_digit (hd rest)"
  shows "read_nat (decimal n @ rest) = Some (n, rest)"
proof -
  obtain c cs where c: "decimal n = c # cs" "is_digit c" using is_digit_hd_decimal by blast
  have "read_digits 0 (decimal n @ rest) = read_digits n rest"
    using read_digits_decimal[of 0 n rest] by simp
  also have "\<dots> = (n, rest)" using assms by (cases rest) auto
  finally have "read_digits 0 (decimal n @ rest) = (n, rest)" .
  then show ?thesis using c by (simp add: read_nat_def)
qed

lemma expect_append: "expect p (p @ s) = Some s"
  by (simp add: expect_def)

lemma parse_cell_sprintf:
  "parse_cell (sprintf_cell r8 g8 b8 c @ rest) = Some ((unat r8, unat g8, unat b8, c), rest)"
proof -
  have nd: "\<not> is_digit CHR '';''" "\<not> is_digit CHR ''m''" by (simp_all add: is_digit_def)
  have 1: "expect (ESC # ''[38;2;'') (sprintf_cell r8 g8 b8 c @ rest)
           = Some (decimal (unat r8) @ ('';'' @ decimal (unat g8) @ '';'' @ decimal (unat b8) @ ''m'' @ [c] @ reset_seq @ rest))"
    unfolding sprintf_cell_def using expect_append[of "ESC # ''[38;2;''"] by simp
  have 2: "read_nat (decimal (unat r8) @ ('';'' @ decimal (unat g8) @ '';'' @ decimal (unat b8) @ ''m'' @ [c] @ reset_seq @ rest))
           = Some (unat r8, '';'' @ decimal (unat g8) @ '';'' @ decimal (unat b8) @ ''m'' @ [c] @ reset_seq @ rest)"
    using nd by (intro read_nat_decimal) simp
  have 3: "read_nat (decimal (unat g8) @ ('';'' @ decimal (unat b8) @ ''m'' @ [c] @ reset_seq @ rest))
           = Some (unat g8, '';'' @ decimal (unat b8) @ ''m'' @ [c] @ reset_seq @ rest)"
    using nd by (intro read_nat_decimal) simp
  have 4: "read_nat (decimal (unat b8) @ (''m'' @ [c] @ reset_seq @ rest))
           = Some (unat b8, ''m'' @ [c] @ reset_seq @ rest)"
    using nd by (intro read_nat_decimal) simp
  have 5: "expect '';'' ('';'' @ s) = Some s" "expect ''m'' (''m'' @ s) = Some s"
    "expect reset_seq (reset_seq @ s) = Some s" for s
    by (rule expect_append)+
  show ?thesis
    unfolding parse_cell_def 1 using 2 3 4 5 by (simp add: read_char_def)
qed

lemma parse_cells_concat:
  "parse_cells (length cs) (concat (map (\<lambda>(r8, g8, b8, c). sprintf_cell r8 g8 b8 c) cs))
   = Some (map (\<lambda>(r8, g8, b8, c). (unat r8, unat g8, unat b8, c)) cs)"
proof (induction cs)
  case Nil
  then show ?case by simp
next
  case (Cons a cs)
  obtain r8 g8 b8 c where a: "a = (r8, g8, b8, c)" by (cases a) auto
  show ?case using Cons by (simp add: a parse_cell_sprintf)
qed

lemma suffix_reset_sprintf: "suffix reset_seq (sprintf_cell r8 g8 b8 c)"
  unfolding sprintf_cell_def suffix_def by (intro exI[of _ "ESC # ''[38;2;'' @ decimal (unat r8) @ '';'' @ decimal (unat g8) @ '';'' @ decimal (unat b8) @ ''m'' @ [c]"]) simp

lemma glyph_in_palette:
  assumes "channels_le a"
  shows "0 \<le> charIndex64 (gray64 (rSum a) (gSum a) (bSum a))"
    and "charIndex64 (gray64 (rSum a) (gSum a) (bSum a)) \<le> 9"
    and "unat (gray64 (rSum a) (gSum a) (bSum a)) \<le> 255"
    and "index_string palette (charIndex64 (gray64 (rSum a) (gSum a) (bSum a))) = Inr (glyph_of a)"
    and "glyph_of a \<in> set palette"
proof -
  show g: "unat (gray64 (rSum a) (gSum a) (bSum a)) \<le> 255"
    using assms by (intro gray64_le) (simp_all add: channels_le_def)
  from charIndex64_range[OF g]
  show r: "0 \<le> charIndex64 (gray64 (rSum a) (gSum a) (bSum a))"
    "charIndex64 (gray64 (rSum a) (gSum a) (bSum a)) \<le> 9" by simp_all
  then show "index_string palette (charIndex64 (gray64 (rSum a) (gSum a) (bSum a))) = Inr (glyph_of a)"
    "glyph_of a \<in> set palette"
    using index_string_palette[of "charIndex64 (gray64 (rSum a) (gSum a) (bSum a))"]
    by (simp_all add: glyph_of_def)
qed

lemma par_cell_eq:
  assumes "block_average img width imgY imgYEnd x = Inr a" "channels_le a"
  shows "par_cell img width imgY imgYEnd x = Inr (glyph_of a)"
  using assms glyph_in_palette(4)[OF assms(2)] by (simp add: par_cell_def)

lemma par_color_cell_eq:
  assumes "block_average img width imgY imgYEnd x = Inr a" "channels_le a"
  shows "par_color_cell img width imgY imgYEnd x = Inr (colored a)"
  using assms glyph_in_palette(4)[OF assms(2)]
  by (simp add: par_color_cell_def colored_def rgb8_def Let_def)

lemma cell_average_eq:
  "height \<noteq> 0 \<Longrightarrow> cell_average img width height y x
     = block_average img width (tdiv (imul y (Dy img)) height)
         (clamp_end (tdiv (imul (y + 1) (Dy img)) height) (Dy img)) x"
  by (simp add: cell_average_def quo_Inr)

lemma cell_average_ok:
  assumes "width \<noteq> 0" "height \<noteq> 0"
  shows "\<exists>a. cell_average img width height y x = Inr a \<and> channels_le a"
  using block_average_ok[OF assms(1)] cell_average_eq[OF assms(2)] by metis

lemma avg_ok:
  assumes "width \<noteq> 0" "height \<noteq> 0"
  shows "cell_average img width height y x = Inr (avg img width height y x)"
    and "channels_le (avg img width height y x)"
  using cell_average_ok[OF assms, of img y x] by (auto simp: avg_def)

lemma par_line_eq:
  assumes "height \<noteq> 0"
  shows "par_line img width height y
         = Inr (map (\<lambda>x. glyph_of (avg img width height y x)) [0..width - 1])"
proof -
  let ?imgY = "tdiv (imul y (Dy img)) height"
  let ?imgYEnd = "clamp_end (tdiv (imul (y + 1) (Dy img)) height) (Dy img)"
  have cell: "par_cell img width ?imgY ?imgYEnd x = Inr (glyph_of (avg img width height y x))"
    if "0 \<le> x" "x < width" for x
  proof -
    have w: "width \<noteq> 0" using that by auto
    show ?thesis
      using avg_ok[OF w assms, of img y x] cell_average_eq[OF assms, of img width y x]
      by (intro par_cell_eq) simp_all
  qed
  have "par_line img width height y
        = for_up 0 width (\<lambda>x line. bindE (par_cell img width ?imgY ?imgYEnd x) (\<lambda>c. Inr (line @ [c]))) []"
    using assms by (simp add: par_line_def quo_Inr)
  also have "\<dots> = Inr ([] @ concat (map (\<lambda>x. [glyph_of (avg img width height y x)]) [0..width - 1]))"
    using cell by (intro for_up_append) simp_all
  also have "concat (map (\<lambda>x. [glyph_of (avg img width height y x)]) [0..width - 1])
             = map (\<lambda>x. glyph_of (avg img width height y x)) [0..width - 1]"
    by (induction "[0..width - 1]") (simp_all add: concat_map_singleton)
  finally show ?thesis by simp
qed

lemma par_color_line_eq:
  assumes "height \<noteq> 0"
  shows "par_color_line img width height y
         = Inr (concat (map (\<lambda>x. colored (avg img width height y x)) [0..width - 1]))"
proof -
  let ?imgY = "tdiv (imul y (Dy img)) height"
  let ?imgYEnd = "clamp_end (tdiv (imul (y + 1) (Dy img)) height) (Dy img)"
  have cell: "par_color_cell img width ?imgY ?imgYEnd x = Inr (colored (avg img width height y x))"
    if "0 \<le> x" "x < width" for x
  proof -
    have w: "width \<noteq> 0" using that by auto
    show ?thesis
      using avg_ok[OF w assms, of img y x] cell_average_eq[OF assms, of img width y x]
      by (intro par_color_cell_eq) simp_all
  qed
  have "par_color_line img width height y
        = for_up 0 width (\<lambda>x line. bindE (par_color_cell img width ?imgY ?imgYEnd x) (\<lambda>c. Inr (line @ c))) []"
    using assms by (simp add: par_color_line_def quo_Inr)
  also have "\<dots> = Inr ([] @ concat (map (\<lambda>x. colored (avg img width height y x)) [0..width - 1]))"
    using cell by (intro for_up_append) simp_all
  finally show ?thesis by simp
qed

lemma length_upto: "length [0..w - 1] = nat w"
  by simp

text \<open>The converters on any schedule.\<close>

lemma toASCII_par_eq:
  assumes "0 \<le> h0" "schedule (clamp_height h0) order" "clamp_height h0 \<le> max_strings"
  shows "toASCII_par img width h0 order
         = Inr (map (\<lambda>j. map (\<lambda>x. glyph_of (avg img width (clamp_height h0) (int j) x)) [0..width - 1])
                  [0..<nat (clamp_height h0)])"
proof -
  have h: "0 < clamp_height h0" using assms(1) by (rule clamp_height_pos)
  then have nz: "clamp_height h0 \<noteq> 0" by simp
  have "toASCII_par img width h0 order
        = collect (par_line img width (clamp_height h0)) order (replicate (nat (clamp_height h0)) [])"
    using h assms(3) by (simp add: toASCII_par_def make_strings_def Let_def)
  also have "\<dots> = Inr (map (\<lambda>j. map (\<lambda>x. glyph_of (avg img width (clamp_height h0) (int j) x)) [0..width - 1])
                  [0..<nat (clamp_height h0)])"
    using assms(2) h par_line_eq[OF nz] by (intro collect_schedule) simp_all
  finally show ?thesis .
qed

lemma colorASCII_par_eq:
  assumes "0 \<le> h0" "schedule (clamp_height h0) order" "clamp_height h0 \<le> max_strings"
  shows "colorASCII_par img width h0 order
         = Inr (map (\<lambda>j. concat (map (\<lambda>x. colored (avg img width (clamp_height h0) (int j) x)) [0..width - 1]))
                  [0..<nat (clamp_height h0)])"
proof -
  have h: "0 < clamp_height h0" using assms(1) by (rule clamp_height_pos)
  then have nz: "clamp_height h0 \<noteq> 0" by simp
  have "colorASCII_par img width h0 order
        = collect (par_color_line img width (clamp_height h0)) order (replicate (nat (clamp_height h0)) [])"
    using h assms(3) by (simp add: colorASCII_par_def make_strings_def Let_def)
  also have "\<dots> = Inr (map (\<lambda>j. concat (map (\<lambda>x. colored (avg img width (clamp_height h0) (int j) x)) [0..width - 1]))
                  [0..<nat (clamp_height h0)])"
    using assms(2) h par_color_line_eq[OF nz] by (intro collect_schedule) simp_all
  finally show ?thesis .
qed

lemma par_negative_height:
  assumes "h0 < 0 \<or> max_strings < clamp_height h0"
  shows "toASCII_par img width h0 order = Inl MakeSliceLenOutOfRange"
    and "colorASCII_par img width h0 order = Inl MakeSliceLenOutOfRange"
  using assms by (auto simp: toASCII_par_def colorASCII_par_def clamp_height_def make_strings_def)

lemma gray32_unat:
  fixes r g b :: u32
  assumes "unat r \<le> 65535" "unat g \<le> 65535" "unat b \<le> 65535"
  shows "unat (gray32 r g b) = (299 * unat r + 587 * unat g + 114 * unat b) div 1000 div 256"
proof -
  have s: "299 * unat r + 587 * unat g + 114 * unat b \<le> 65535000" using assms by simp
  have "unat (299 * r + 587 * g + 114 * b) = 299 * unat r + 587 * unat g + 114 * unat b"
    using s by (simp add: unat_word_ariths)
  then show ?thesis by (simp add: gray32_def unat_div)
qed

lemma gray64_unat:
  fixes r g b :: u64
  assumes "unat r \<le> 65535" "unat g \<le> 65535" "unat b \<le> 65535"
  shows "unat (gray64 r g b) = (299 * unat r + 587 * unat g + 114 * unat b) div 1000 div 256"
proof -
  have s: "299 * unat r + 587 * unat g + 114 * unat b \<le> 65535000" using assms by simp
  have "unat (299 * r + 587 * g + 114 * b) = 299 * unat r + 587 * unat g + 114 * unat b"
    using s by (simp add: unat_word_ariths)
  then show ?thesis by (simp add: gray64_def unat_div)
qed

lemma charIndex32_unat:
  "charIndex32 gray = tdiv (int (unat gray) * 9) 255"
  by (simp add: charIndex32_def length_palette)

lemma charIndex64_unat:
  assumes "unat gray \<le> 255"
  shows "charIndex64 gray = tdiv (int (unat gray) * 9) 255"
proof -
  have "uint gray = int (unat gray)" by (rule uint_nat)
  then have u: "0 \<le> uint gray" "uint gray \<le> 255" using assms by linarith+
  have "- (2 ^ 63) \<le> (0::int)" by simp
  then have "- (2 ^ 63) \<le> uint gray" using u(1) by (rule order_trans)
  moreover have "(255::int) < 2 ^ 63" by simp
  then have "uint gray < 2 ^ 63" using u(2) by (rule le_less_trans[rotated])
  ultimately have "signed_take_bit 63 (uint gray) = uint gray"
    by (rule signed_take_bit_int_eq_self)
  then have "sint gray = uint gray" by (simp add: sint_uint)
  then show ?thesis by (simp add: charIndex64_def length_palette)
qed

lemma RGBA_le:
  assumes "RGBA c = (r, g, b)"
  shows "unat r \<le> 65535" "unat g \<le> 65535" "unat b \<le> 65535"
  using assms unat_u16_le by (auto simp: RGBA_def unat_ucast_16_32)

lemma seq_cell_eq:
  assumes "width \<noteq> 0" "height \<noteq> 0"
  shows "seq_cell img width height y x
         = Inr (pixel_glyph (At img (tdiv (imul x (Dx img)) width) (tdiv (imul y (Dy img)) height)))"
proof -
  obtain r g b where rgb: "RGBA (At img (tdiv (imul x (Dx img)) width) (tdiv (imul y (Dy img)) height)) = (r, g, b)"
    by (cases "RGBA (At img (tdiv (imul x (Dx img)) width) (tdiv (imul y (Dy img)) height))") auto
  have "unat (gray32 r g b) \<le> 255" using RGBA_le[OF rgb] by (intro gray32_le)
  then have "0 \<le> charIndex32 (gray32 r g b) \<and> charIndex32 (gray32 r g b) \<le> 9"
    by (rule charIndex32_range)
  then have "index_string palette (charIndex32 (gray32 r g b)) = Inr (palette ! nat (charIndex32 (gray32 r g b)))"
    using index_string_palette by simp
  then show ?thesis using assms rgb by (simp add: seq_cell_def quo_Inr pixel_glyph_def)
qed

lemma seq_line_eq:
  assumes "height \<noteq> 0"
  shows "seq_line img width height y
         = Inr (map (\<lambda>x. pixel_glyph (At img (tdiv (imul x (Dx img)) width) (tdiv (imul y (Dy img)) height)))
                  [0..width - 1])"
proof -
  have cell: "seq_cell img width height y x
              = Inr (pixel_glyph (At img (tdiv (imul x (Dx img)) width) (tdiv (imul y (Dy img)) height)))"
    if "0 \<le> x" "x < width" for x
    using that assms by (intro seq_cell_eq) auto
  have "seq_line img width height y
        = Inr ([] @ concat (map (\<lambda>x. [pixel_glyph (At img (tdiv (imul x (Dx img)) width) (tdiv (imul y (Dy img)) height))])
                  [0..width - 1]))"
    unfolding seq_line_def using cell by (intro for_up_append) simp_all
  also have "concat (map (\<lambda>x. [pixel_glyph (At img (tdiv (imul x (Dx img)) width) (tdiv (imul y (Dy img)) height))])
                  [0..width - 1])
             = map (\<lambda>x. pixel_glyph (At img (tdiv (imul x (Dx img)) width) (tdiv (imul y (Dy img)) height)))
                  [0..width - 1]"
    by (induction "[0..width - 1]") (simp_all add: concat_map_singleton)
  finally show ?thesis by simp
qed

lemma toASCII_seq_eq:
  assumes "0 \<le> h0" "clamp_height h0 \<le> max_strings"
  shows "toASCII_seq img width h0
         = Inr (map (\<lambda>j. map (\<lambda>x. pixel_glyph (At img (tdiv (imul x (Dx img)) width)
                                                   (tdiv (imul (int j) (Dy img)) (clamp_height h0))))
                             [0..width - 1])
                  [0..<nat (clamp_height h0)])"
proof -
  have h: "0 < clamp_height h0" using assms(1) by (rule clamp_height_pos)
  then have nz: "clamp_height h0 \<noteq> 0" by simp
  have "toASCII_seq img width h0
        = for_up 0 (clamp_height h0)
            (\<lambda>y result. bindE (seq_line img width (clamp_height h0) y) (\<lambda>line. store result y line))
            (replicate (nat (clamp_height h0)) [])"
    using h assms(2) by (simp add: toASCII_seq_def make_strings_def Let_def)
  also have "\<dots> = Inr (map (\<lambda>j. map (\<lambda>x. pixel_glyph (At img (tdiv (imul x (Dx img)) width)
                                                   (tdiv (imul (int j) (Dy img)) (clamp_height h0))))
                             [0..width - 1])
                  [0..<nat (clamp_height h0)])"
    using h seq_line_eq[OF nz] by (intro for_up_rows) simp_all
  finally show ?thesis .
qed

text \<open>A window of exactly one pixel.\<close>

lemma stride_of_unit: "stride_of p (p + 1) = 1"
  by (simp add: stride_of_def tdiv_def)

lemma sample_block_unit:
  "sample_block img x (x + 1) y (y + 1) = add_sample img y x zero_sums"
  by (simp add: sample_block_def stride_of_unit for_stride_once)

lemma tdiv_mult_self: "0 \<le> a \<Longrightarrow> 0 < w \<Longrightarrow> tdiv (a * w) w = a"
  by (simp add: tdiv_nonneg)

lemma tdiv_imul_self:
  assumes "0 \<le> a" "a \<le> w" "w * w < 2 ^ 31"
  shows "tdiv (imul a w) w = a"
proof (cases "w = 0")
  case True
  then show ?thesis using assms by (simp add: imul_zero tdiv_def imul_def wrap_def)
next
  case False
  then have w: "0 < w" using assms(1,2) by simp
  have "imul a w = a * w" using assms w by (intro imul_small[where c = w]) simp_all
  then show ?thesis using assms(1) w by (simp only: tdiv_mult_self)
qed

lemma cell_average_unit:
  assumes "0 < Dx img" "0 < Dy img" "0 \<le> x" "x < Dx img" "0 \<le> y" "y < Dy img"
    and "Dx img * Dx img < 2 ^ 31" "Dy img * Dy img < 2 ^ 31"
  shows "cell_average img (Dx img) (Dy img) y x = Inr (add_sample img y x zero_sums)"
proof -
  have x: "tdiv (imul x (Dx img)) (Dx img) = x" "tdiv (imul (x + 1) (Dx img)) (Dx img) = x + 1"
    using assms by (simp_all add: tdiv_imul_self)
  have y: "tdiv (imul y (Dy img)) (Dy img) = y" "tdiv (imul (y + 1) (Dy img)) (Dy img) = y + 1"
    using assms by (simp_all add: tdiv_imul_self)
  have "pixelCount (add_sample img y x zero_sums) = 1"
    by (simp add: add_sample_def zero_sums_def split: prod.splits)
  then have "average (add_sample img y x zero_sums) = Inr (add_sample img y x zero_sums)"
    by (simp add: average_def udiv64_def)
  then show ?thesis
    using assms by (simp add: cell_average_def block_average_def quo_Inr x y clamp_end_def sample_block_unit)
qed

lemma glyph_of_unit: "glyph_of (add_sample img y x zero_sums) = pixel_glyph (At img x y)"
proof -
  obtain r g b where rgb: "RGBA (At img x y) = (r, g, b)"
    by (cases "RGBA (At img x y)") auto
  note le = RGBA_le[OF rgb]
  have s: "add_sample img y x zero_sums = \<lparr>rSum = ucast r, gSum = ucast g, bSum = ucast b, pixelCount = 1\<rparr>"
    by (simp add: add_sample_def zero_sums_def rgb)
  have le64: "unat (ucast r :: u64) \<le> 65535" "unat (ucast g :: u64) \<le> 65535" "unat (ucast b :: u64) \<le> 65535"
    using le by (simp_all only: unat_ucast_32_64)
  have "unat (gray64 (ucast r) (ucast g) (ucast b)) = unat (gray32 r g b)"
    by (simp only: gray64_unat[OF le64] gray32_unat[OF le] unat_ucast_32_64)
  moreover have "unat (gray64 (ucast r) (ucast g) (ucast b)) \<le> 255"
    using le64 by (rule gray64_le)
  ultimately have "charIndex64 (gray64 (ucast r) (ucast g) (ucast b)) = charIndex32 (gray32 r g b)"
    by (simp only: charIndex64_unat charIndex32_unat)
  then show ?thesis by (simp add: glyph_of_def pixel_glyph_def s rgb)
qed

lemma toASCII_in_order_eq:
  assumes "0 \<le> h0" "clamp_height h0 \<le> max_strings"
  shows "toASCII_in_order img width h0
         = Inr (map (\<lambda>j. map (\<lambda>x. glyph_of (avg img width (clamp_height h0) (int j) x)) [0..width - 1])
                  [0..<nat (clamp_height h0)])"
proof -
  have h: "0 < clamp_height h0" using assms(1) by (rule clamp_height_pos)
  then have nz: "clamp_height h0 \<noteq> 0" by simp
  have "toASCII_in_order img width h0
        = for_up 0 (clamp_height h0)
            (\<lambda>y result. bindE (par_line img width (clamp_height h0) y) (\<lambda>line. store result y line))
            (replicate (nat (clamp_height h0)) [])"
    using h assms(2) by (simp add: toASCII_in_order_def make_strings_def Let_def)
  also have "\<dots> = Inr (map (\<lambda>j. map (\<lambda>x. glyph_of (avg img width (clamp_height h0) (int j) x)) [0..width - 1])
                  [0..<nat (clamp_height h0)])"
    using h par_line_eq[OF nz] by (intro for_up_rows) simp_all
  finally show ?thesis .
qed

lemma in_order_negative_height:
  "h0 < 0 \<or> max_strings < clamp_height h0
   \<Longrightarrow> toASCII_in_order img width h0 = Inl MakeSliceLenOutOfRange"
  by (auto simp: toASCII_in_order_def clamp_height_def make_strings_def)

lemma avg_unit:
  assumes "0 < Dx img" "0 < Dy img" "0 \<le> x" "x < Dx img" "0 \<le> y" "y < Dy img"
    and "Dx img * Dx img < 2 ^ 31" "Dy img * Dy img < 2 ^ 31"
  shows "glyph_of (avg img (Dx img) (Dy img) y x) = pixel_glyph (At img x y)"
  using cell_average_unit[OF assms] by (simp add: avg_def glyph_of_unit)

lemma square_small:
  fixes n :: int
  assumes "0 < n" "n * n < 2 ^ 31"
  shows "n \<le> max_strings"
proof -
  have "n * 1 \<le> n * n" using assms(1) by (intro mult_left_mono) simp_all
  then have "n < 2 ^ 31" using assms(2) by simp
  then show ?thesis by (simp add: max_strings_def)
qed

lemma one_to_one_agree:
  assumes "0 \<le> h0" "0 < width" "Dx img = width" "Dy img = clamp_height h0"
    and "width * Dx img < 2 ^ 31" "clamp_height h0 * Dy img < 2 ^ 31"
    and "schedule (clamp_height h0) order"
  shows "toASCII_par img width h0 order = toASCII_seq img width h0"
proof -
  have h: "0 < clamp_height h0" using assms(1) by (rule clamp_height_pos)
  have sq: "Dx img * Dx img < 2 ^ 31" "Dy img * Dy img < 2 ^ 31"
    using assms(3,4,5,6) by simp_all
  have m: "clamp_height h0 \<le> max_strings"
    using h sq(2) assms(4) by (intro square_small) simp_all
  have cell: "glyph_of (avg img width (clamp_height h0) (int j) x)
              = pixel_glyph (At img (tdiv (imul x (Dx img)) width) (tdiv (imul (int j) (Dy img)) (clamp_height h0)))"
    if "j < nat (clamp_height h0)" "x \<in> set [0..width - 1]" for j x
  proof -
    have x: "0 \<le> x" "x < Dx img" using that(2) assms(3) by simp_all
    have j: "0 \<le> int j" "int j < Dy img" using that(1) assms(4) by simp_all
    have "glyph_of (avg img (Dx img) (Dy img) (int j) x) = pixel_glyph (At img x (int j))"
      using assms(2,3,4) h x j sq by (intro avg_unit) simp_all
    moreover have "tdiv (imul x (Dx img)) (Dx img) = x" "tdiv (imul (int j) (Dy img)) (Dy img) = int j"
      using x j sq by (simp_all add: tdiv_imul_self)
    ultimately show ?thesis using assms(3,4) by simp
  qed
  show ?thesis
    unfolding toASCII_par_eq[OF assms(1,7) m] toASCII_seq_eq[OF assms(1) m]
    using cell by (auto intro!: map_cong)
qed

text \<open>
  Claim C1, as amended.  On every schedule the goroutine-per-row \<^verbatim>\<open>toASCII\<close> returns
  what filling the rows in ascending order with the same row computation returns.  When the
  output has the width and the height of the image, so that every window is one pixel, and
  the products \<open>width * imgWidth\<close> and \<open>height * imgHeight\<close> are below \<open>2^31\<close>, so that
  no \<^verbatim>\<open>int\<close> of either converter wraps on a 32-bit or a 64-bit target, it also returns
  what the sequential one-pixel \<^verbatim>\<open>toASCII\<close> returns.
\<close>

theorem parallel_rows_in_order:
  assumes "schedule (clamp_height h0) order"
  shows "toASCII_par img width h0 order = toASCII_in_order img width h0
         \<and> (0 \<le> h0 \<and> 0 < width \<and> Dx img = width \<and> Dy img = clamp_height h0
              \<and> width * Dx img < 2 ^ 31 \<and> clamp_height h0 * Dy img < 2 ^ 31
              \<longrightarrow> toASCII_par img width h0 order = toASCII_seq img width h0)"
proof
  show "toASCII_par img width h0 order = toASCII_in_order img width h0"
  proof (cases "0 \<le> h0 \<and> clamp_height h0 \<le> max_strings")
    case True
    then show ?thesis using assms by (simp only: toASCII_par_eq toASCII_in_order_eq)
  next
    case False
    then have "h0 < 0 \<or> max_strings < clamp_height h0" by auto
    then show ?thesis by (simp only: par_negative_height in_order_negative_height)
  qed
  show "0 \<le> h0 \<and> 0 < width \<and> Dx img = width \<and> Dy img = clamp_height h0
        \<and> width * Dx img < 2 ^ 31 \<and> clamp_height h0 * Dy img < 2 ^ 31
        \<longrightarrow> toASCII_par img width h0 order = toASCII_seq img width h0"
    using assms one_to_one_agree by blast
qed

lemma schedule_two: "schedule (clamp_height 2) [1, 0]"
  by (auto simp: schedule_def clamp_height_def upto_rec1)

text \<open>Claim C1, witness: a 2x2 image converted at width 2 and height 2, rows arriving in reverse.\<close>

theorem parallel_rows_in_order_witness:
  "toASCII_par split2x2 2 2 [1, 0] = toASCII_in_order split2x2 2 2
   \<and> toASCII_par split2x2 2 2 [1, 0] = toASCII_seq split2x2 2 2"
proof -
  have "(0::int) \<le> 2 \<and> (0::int) < 2 \<and> Dx split2x2 = 2 \<and> Dy split2x2 = clamp_height 2
        \<and> 2 * Dx split2x2 < 2 ^ 31 \<and> clamp_height 2 * Dy split2x2 < 2 ^ 31"
    by (simp add: split2x2_def clamp_height_def)
  with parallel_rows_in_order[OF schedule_two, of split2x2 2] show ?thesis by blast
qed

text \<open>
  Claim C1 as stated fails: on a 2x1 image (black, white) at width 1 the sequential
  converter reads the black pixel and prints \<open>@\<close>; the parallel converter averages both
  pixels and prints \<open>+\<close>.
\<close>

theorem sequential_parallel_differ:
  "toASCII_seq split2x1 1 0 \<noteq> toASCII_par split2x1 1 0 [0]"
proof -
  have "toASCII_seq split2x1 1 0 = Inr [''@'']" by code_simp
  moreover have "toASCII_par split2x1 1 0 [0] = Inr [''+'']" by code_simp
  ultimately show ?thesis by simp
qed

text \<open>
  Claim C8.  The parallel converters return the same result on any two schedules, that is,
  whatever the order in which the row goroutines deliver.  (The sequential converters are
  functions of the image, the width and the height.)
\<close>

theorem schedule_independent:
  assumes "schedule (clamp_height h0) order1" "schedule (clamp_height h0) order2"
  shows "toASCII_par img width h0 order1 = toASCII_par img width h0 order2
         \<and> colorASCII_par img width h0 order1 = colorASCII_par img width h0 order2"
proof (cases "0 \<le> h0 \<and> clamp_height h0 \<le> max_strings")
  case True
  then show ?thesis using assms by (simp only: toASCII_par_eq colorASCII_par_eq)
next
  case False
  then have "h0 < 0 \<or> max_strings < clamp_height h0" by auto
  then show ?thesis by (simp only: par_negative_height)
qed

lemma schedule_two': "schedule (clamp_height 2) [0, 1]"
  by (simp add: schedule_def clamp_height_def upto_rec1)

text \<open>Claim C8, witness: the two schedules of a two-row output.\<close>

theorem schedule_independent_witness:
  "toASCII_par split2x2 4 2 [0, 1] = toASCII_par split2x2 4 2 [1, 0]
   \<and> colorASCII_par split2x2 4 2 [0, 1] = colorASCII_par split2x2 4 2 [1, 0]"
  by (rule schedule_independent[OF schedule_two' schedule_two])

lemma plain_cell_eq:
  "height \<noteq> 0 \<Longrightarrow> plain_cell img width height y x
     = par_cell img width (tdiv (imul y (Dy img)) height)
         (clamp_end (tdiv (imul (y + 1) (Dy img)) height) (Dy img)) x"
  by (simp add: plain_cell_def quo_Inr)

lemma color_cell_eq:
  "height \<noteq> 0 \<Longrightarrow> color_cell img width height y x
     = par_color_cell img width (tdiv (imul y (Dy img)) height)
         (clamp_end (tdiv (imul (y + 1) (Dy img)) height) (Dy img)) x"
  by (simp add: color_cell_def quo_Inr)

lemma plain_cell_avg:
  assumes "width \<noteq> 0" "height \<noteq> 0"
  shows "plain_cell img width height y x = Inr (glyph_of (avg img width height y x))"
  using avg_ok[OF assms, of img y x] cell_average_eq[OF assms(2), of img width y x]
  by (simp only: plain_cell_eq[OF assms(2)] par_cell_eq)

lemma color_cell_avg:
  assumes "width \<noteq> 0" "height \<noteq> 0"
  shows "color_cell img width height y x = Inr (colored (avg img width height y x))"
  using avg_ok[OF assms, of img y x] cell_average_eq[OF assms(2), of img width y x]
  by (simp only: color_cell_eq[OF assms(2)] par_color_cell_eq)

subsection \<open>Sample counts\<close>

text \<open>
  Claim C2 at a 1x1 image converted at width 2 and height 1: the window of column 0 is
  \<open>[0, 0)\<close>, the sampling loops do not run and the sample count stays 0, where the claim
  has at least the window's top-left point sampled.  The guard \<^verbatim>\<open>if pixelCount > 0\<close>
  skips the division.
\<close>

theorem empty_window_no_sample:
  "cell_average white1x1 2 1 0 0 = Inr \<lparr>rSum = 0, gSum = 0, bSum = 0, pixelCount = 0\<rparr>"
  by code_simp

subsection \<open>Rows and columns\<close>

lemma unat_rgb8:
  fixes r :: u64
  assumes "unat r \<le> 65535"
  shows "unat (ucast (drop_bit 8 r) :: u8) = unat (drop_bit 8 r)"
proof -
  have "unat (drop_bit 8 r) = drop_bit 8 (unat r)" by (rule unat_drop_bit_eq)
  also have "\<dots> = unat r div 2 ^ 8" by (rule drop_bit_eq_div)
  also have "\<dots> \<le> 65535 div 2 ^ 8" using assms by (rule div_le_mono)
  finally have "unat (drop_bit 8 r) < 2 ^ 8" by simp
  then show ?thesis by (simp add: unsigned_ucast_eq take_bit_nat_eq_self)
qed

lemma parse_cell_colored:
  assumes "channels_le s"
  shows "parse_cell (colored s @ rest)
         = Some ((unat (drop_bit 8 (rSum s)), unat (drop_bit 8 (gSum s)), unat (drop_bit 8 (bSum s)),
                  glyph_of s), rest)"
  using assms by (simp add: colored_def rgb8_def parse_cell_sprintf unat_rgb8 channels_le_def)

lemma parse_cells_colored:
  assumes "\<And>s. s \<in> set ss \<Longrightarrow> channels_le s"
  shows "parse_cells (length ss) (concat (map colored ss))
         = Some (map (\<lambda>s. (unat (drop_bit 8 (rSum s)), unat (drop_bit 8 (gSum s)),
                            unat (drop_bit 8 (bSum s)), glyph_of s)) ss)"
  using assms
proof (induction ss)
  case Nil
  then show ?case by simp
next
  case (Cons s ss)
  then show ?case by (simp add: parse_cell_colored)
qed

lemma color_row_cells:
  assumes "0 < height"
  shows "\<exists>cells. parse_cells (nat width)
                    (concat (map (\<lambda>x. colored (avg img width height y x)) [0..width - 1]))
                  = Some cells \<and> (\<forall>(r, g, b, c)\<in>set cells. c \<in> set palette)"
proof -
  define ss where "ss = map (avg img width height y) [0..width - 1]"
  define f where "f = (\<lambda>s. (unat (drop_bit 8 (rSum s)), unat (drop_bit 8 (gSum s)),
                             unat (drop_bit 8 (bSum s)), glyph_of s))"
  have h: "height \<noteq> 0" using assms by simp
  have ok: "channels_le s" if "s \<in> set ss" for s
  proof -
    from that obtain x where x: "x \<in> set [0..width - 1]" "s = avg img width height y x"
      unfolding ss_def by (auto simp only: set_map)
    from x(1) have "width \<noteq> 0" by auto
    then show ?thesis unfolding x(2) using h by (rule avg_ok(2))
  qed
  have l: "length ss = nat width" by (simp add: ss_def)
  have c: "concat (map colored ss)
           = concat (map (\<lambda>x. colored (avg img width height y x)) [0..width - 1])"
    by (simp add: ss_def comp_def)
  have "parse_cells (length ss) (concat (map colored ss)) = Some (map f ss)"
    unfolding f_def using ok by (rule parse_cells_colored)
  then have p: "parse_cells (nat width)
                  (concat (map (\<lambda>x. colored (avg img width height y x)) [0..width - 1]))
                = Some (map f ss)"
    by (simp only: l c)
  have g: "\<forall>(r, g, b, c)\<in>set (map f ss). c \<in> set palette"
  proof
    fix q assume "q \<in> set (map f ss)"
    then obtain s where s: "s \<in> set ss" "q = f s" by (auto simp only: set_map)
    have "glyph_of s \<in> set palette" using ok[OF s(1)] by (rule glyph_in_palette(5))
    then show "case q of (r, g, b, c) \<Rightarrow> c \<in> set palette"
      by (simp add: s(2) f_def)
  qed
  from p g show ?thesis by (intro exI[of _ "map f ss"] conjI)
qed

subsection \<open>Palette index\<close>

text \<open>
  Claim C9.  For every pixel the one-pixel converters compute a gray value of at most 255 and
  a palette index within \<open>[0, len(palette) - 1]\<close>, so the palette read does not panic.  The
  same holds for the averaged sums of every cell of the block-averaging converters: the
  channel sums of at most 25 samples do not wrap and their averages fit in 16 bits.
\<close>

theorem palette_index_in_bounds:
  "(case RGBA c of (r, g, b) \<Rightarrow>
      unat (gray32 r g b) \<le> 255
      \<and> 0 \<le> charIndex32 (gray32 r g b)
      \<and> charIndex32 (gray32 r g b) \<le> int (length palette) - 1
      \<and> index_string palette (charIndex32 (gray32 r g b))
          = Inr (palette ! nat (charIndex32 (gray32 r g b))))
   \<and> (width \<noteq> 0 \<longrightarrow>
        (\<exists>a. block_average img width imgY imgYEnd x = Inr a
           \<and> unat (gray64 (rSum a) (gSum a) (bSum a)) \<le> 255
           \<and> 0 \<le> charIndex64 (gray64 (rSum a) (gSum a) (bSum a))
           \<and> charIndex64 (gray64 (rSum a) (gSum a) (bSum a)) \<le> int (length palette) - 1
           \<and> index_string palette (charIndex64 (gray64 (rSum a) (gSum a) (bSum a)))
               = Inr (palette ! nat (charIndex64 (gray64 (rSum a) (gSum a) (bSum a))))))"
proof
  obtain r g b where rgb: "RGBA c = (r, g, b)" by (cases "RGBA c") auto
  have g: "unat (gray32 r g b) \<le> 255" using RGBA_le[OF rgb] by (intro gray32_le)
  then have i: "0 \<le> charIndex32 (gray32 r g b) \<and> charIndex32 (gray32 r g b) \<le> 9"
    by (rule charIndex32_range)
  then have "index_string palette (charIndex32 (gray32 r g b))
             = Inr (palette ! nat (charIndex32 (gray32 r g b)))"
    using index_string_palette by simp
  then show "case RGBA c of (r, g, b) \<Rightarrow>
      unat (gray32 r g b) \<le> 255
      \<and> 0 \<le> charIndex32 (gray32 r g b)
      \<and> charIndex32 (gray32 r g b) \<le> int (length palette) - 1
      \<and> index_string palette (charIndex32 (gray32 r g b))
          = Inr (palette ! nat (charIndex32 (gray32 r g b)))"
    using g i by (simp add: rgb length_palette)
next
  show "width \<noteq> 0 \<longrightarrow>
        (\<exists>a. block_average img width imgY imgYEnd x = Inr a
           \<and> unat (gray64 (rSum a) (gSum a) (bSum a)) \<le> 255
           \<and> 0 \<le> charIndex64 (gray64 (rSum a) (gSum a) (bSum a))
           \<and> charIndex64 (gray64 (rSum a) (gSum a) (bSum a)) \<le> int (length palette) - 1
           \<and> index_string palette (charIndex64 (gray64 (rSum a) (gSum a) (bSum a)))
               = Inr (palette ! nat (charIndex64 (gray64 (rSum a) (gSum a) (bSum a)))))"
  proof
    assume "width \<noteq> 0"
    then obtain a where a: "block_average img width imgY imgYEnd x = Inr a" "channels_le a"
      using block_average_ok by blast
    note gl = glyph_in_palette[OF a(2)]
    have "charIndex64 (gray64 (rSum a) (gSum a) (bSum a)) \<le> int (length palette) - 1"
      using gl(2) by (simp add: length_palette)
    moreover have "index_string palette (charIndex64 (gray64 (rSum a) (gSum a) (bSum a)))
               = Inr (palette ! nat (charIndex64 (gray64 (rSum a) (gSum a) (bSum a))))"
      using gl(4) by (simp only: glyph_of_def)
    ultimately show "\<exists>a. block_average img width imgY imgYEnd x = Inr a
           \<and> unat (gray64 (rSum a) (gSum a) (bSum a)) \<le> 255
           \<and> 0 \<le> charIndex64 (gray64 (rSum a) (gSum a) (bSum a))
           \<and> charIndex64 (gray64 (rSum a) (gSum a) (bSum a)) \<le> int (length palette) - 1
           \<and> index_string palette (charIndex64 (gray64 (rSum a) (gSum a) (bSum a)))
               = Inr (palette ! nat (charIndex64 (gray64 (rSum a) (gSum a) (bSum a))))"
      using a(1) gl(1,3) by blast
  qed
qed

text \<open>Claim C9, witness: a white pixel, and the cell of a 2x2 image converted at width 1.\<close>

theorem palette_index_in_bounds_witness:
  "(case RGBA white of (r, g, b) \<Rightarrow>
      unat (gray32 r g b) \<le> 255
      \<and> 0 \<le> charIndex32 (gray32 r g b)
      \<and> charIndex32 (gray32 r g b) \<le> int (length palette) - 1
      \<and> index_string palette (charIndex32 (gray32 r g b))
          = Inr (palette ! nat (charIndex32 (gray32 r g b))))
   \<and> (\<exists>a. block_average split2x2 1 0 2 0 = Inr a
           \<and> unat (gray64 (rSum a) (gSum a) (bSum a)) \<le> 255
           \<and> 0 \<le> charIndex64 (gray64 (rSum a) (gSum a) (bSum a))
           \<and> charIndex64 (gray64 (rSum a) (gSum a) (bSum a)) \<le> int (length palette) - 1
           \<and> index_string palette (charIndex64 (gray64 (rSum a) (gSum a) (bSum a)))
               = Inr (palette ! nat (charIndex64 (gray64 (rSum a) (gSum a) (bSum a)))))"
proof -
  note t = palette_index_in_bounds[of white 1 split2x2 0 2 0]
  have h: "(1::int) \<noteq> 0" by simp
  show ?thesis by (rule conjI[OF conjunct1[OF t] mp[OF conjunct2[OF t] h]])
qed

subsection \<open>Coloured cells\<close>

lemma suffix_reset_colored: "suffix reset_seq (colored s)"
  by (simp add: colored_def suffix_reset_sprintf split: prod.splits)

text \<open>
  Claim C6.  The string emitted for a cell in colour mode reads back as the cell's averaged
  channels shifted right by 8 and the cell's palette byte, with nothing left over, and it
  ends with \<^verbatim>\<open>ESC[0m\<close>.  The line of a row is the concatenation of its cells' strings.
\<close>

theorem color_cell_round_trip:
  assumes "width \<noteq> 0" "height \<noteq> 0"
  shows "(\<exists>s cell. cell_average img width height y x = Inr s
            \<and> color_cell img width height y x = Inr cell
            \<and> parse_cell cell
                = Some ((unat (drop_bit 8 (rSum s)), unat (drop_bit 8 (gSum s)),
                         unat (drop_bit 8 (bSum s)),
                         palette ! nat (charIndex64 (gray64 (rSum s) (gSum s) (bSum s)))), [])
            \<and> suffix reset_seq cell)
       \<and> (\<exists>cells. par_color_line img width height y = Inr (concat cells)
            \<and> map Inr cells = map (color_cell img width height y) [0..width - 1])"
proof
  let ?s = "avg img width height y x"
  note s = avg_ok[OF assms, of img y x]
  have "parse_cell (colored ?s @ [])
        = Some ((unat (drop_bit 8 (rSum ?s)), unat (drop_bit 8 (gSum ?s)),
                 unat (drop_bit 8 (bSum ?s)), glyph_of ?s), [])"
    using s(2) by (rule parse_cell_colored)
  then have "parse_cell (colored ?s)
        = Some ((unat (drop_bit 8 (rSum ?s)), unat (drop_bit 8 (gSum ?s)),
                 unat (drop_bit 8 (bSum ?s)),
                 palette ! nat (charIndex64 (gray64 (rSum ?s) (gSum ?s) (bSum ?s)))), [])"
    by (simp add: glyph_of_def)
  then show "\<exists>s cell. cell_average img width height y x = Inr s
            \<and> color_cell img width height y x = Inr cell
            \<and> parse_cell cell
                = Some ((unat (drop_bit 8 (rSum s)), unat (drop_bit 8 (gSum s)),
                         unat (drop_bit 8 (bSum s)),
                         palette ! nat (charIndex64 (gray64 (rSum s) (gSum s) (bSum s)))), [])
            \<and> suffix reset_seq cell"
    using s(1) color_cell_avg[OF assms, of img y x] suffix_reset_colored[of ?s] by blast
next
  let ?cells = "map (\<lambda>x. colored (avg img width height y x)) [0..width - 1]"
  have "color_cell img width height y x = Inr (colored (avg img width height y x))"
    for x using assms by (rule color_cell_avg)
  then have "map Inr ?cells = map (color_cell img width height y) [0..width - 1]"
    by simp
  moreover have "par_color_line img width height y = Inr (concat ?cells)"
    using assms(2) by (rule par_color_line_eq)
  ultimately show "\<exists>cells. par_color_line img width height y = Inr (concat cells)
            \<and> map Inr cells = map (color_cell img width height y) [0..width - 1]"
    by blast
qed

text \<open>Claim C6, witness: the right cell of a 2x2 image at width 2 and height 1.\<close>

theorem color_cell_round_trip_witness:
  "(\<exists>s cell. cell_average split2x2 2 1 0 1 = Inr s
            \<and> color_cell split2x2 2 1 0 1 = Inr cell
            \<and> parse_cell cell
                = Some ((unat (drop_bit 8 (rSum s)), unat (drop_bit 8 (gSum s)),
                         unat (drop_bit 8 (bSum s)),
                         palette ! nat (charIndex64 (gray64 (rSum s) (gSum s) (bSum s)))), [])
            \<and> suffix reset_seq cell)
       \<and> (\<exists>cells. par_color_line split2x2 2 1 0 = Inr (concat cells)
            \<and> map Inr cells = map (color_cell split2x2 2 1 0) [0..2 - 1])"
proof -
  have "(2::int) \<noteq> 0" "(1::int) \<noteq> 0" by simp_all
  then show ?thesis by (rule color_cell_round_trip)
qed

lemma color_cell_example:
  "color_cell split2x2 2 1 0 1 = Inr (ESC # ''[38;2;255;255;255m '' @ reset_seq)"
  by code_simp

subsection \<open>Empty windows\<close>

lemma for_stride_unchanged:
  assumes "\<And>q t. body q t = t"
  shows "for_stride p hi stride body s = s"
proof (cases "1 \<le> stride")
  case True
  have "(\<lambda>k t. t = s) (rounds p hi stride) (for_stride p hi stride body s)"
    using True by (rule for_stride_rounds) (simp_all add: assms)
  then show ?thesis .
next
  case False
  then show ?thesis by (subst for_stride.simps) simp
qed

lemma sample_block_empty:
  assumes "imgXEnd \<le> imgX \<or> imgYEnd \<le> imgY"
  shows "sample_block img imgX imgXEnd imgY imgYEnd = zero_sums"
proof (cases "imgYEnd \<le> imgY")
  case True
  then show ?thesis by (simp add: sample_block_def Let_def for_stride_empty)
next
  case False
  then have "imgXEnd \<le> imgX" using assms by simp
  then have "for_stride imgX imgXEnd (stride_of imgX imgXEnd) (add_sample img py) s = s" for py s
    by (simp add: for_stride_empty)
  then show ?thesis by (simp add: sample_block_def Let_def for_stride_unchanged)
qed

lemma average_zero: "average zero_sums = Inr zero_sums"
  by (simp add: average_def zero_sums_def)

lemma gray64_zero: "gray64 (rSum zero_sums) (gSum zero_sums) (bSum zero_sums) = 0"
  by (simp add: gray64_def zero_sums_def)

lemma glyph_of_zero: "glyph_of zero_sums = CHR ''@''"
  by (simp add: glyph_of_def gray64_zero charIndex64_def tdiv_def palette_def)

lemma decimal_zero: "decimal 0 = ''0''"
  by (subst decimal.simps) (simp add: digit_char_def)

lemma rgb8_zero: "rgb8 zero_sums = (0, 0, 0)"
  by (simp add: rgb8_def zero_sums_def)

lemma colored_zero: "colored zero_sums = ESC # ''[38;2;0;0;0m@'' @ reset_seq"
  by (simp add: colored_def rgb8_zero glyph_of_zero sprintf_cell_def decimal_zero)

lemma tdiv_zero: "tdiv 0 b = 0"
  by (simp add: tdiv_def)

lemma channels_le_zero: "channels_le zero_sums"
  by (simp add: channels_le_def zero_sums_def)

text \<open>
  When the output is wider than the image the window of column 0 ends at 0, also if the
  product wraps.
\<close>

lemma first_window_empty:
  assumes "0 < d" "d < w"
  shows "clamp_end (tdiv (imul (0 + 1) d) w) d \<le> tdiv (imul 0 d) w"
proof -
  define v where "v = wrap d"
  have z: "tdiv (imul 0 d) w = 0" by (simp add: imul_zero tdiv_zero)
  have i: "imul 1 d = v" by (simp add: imul_def v_def)
  have w: "0 < w" using assms by simp
  have "tdiv v w \<le> 0"
  proof (cases "v < 0")
    case True
    then have "tdiv v w = - (\<bar>v\<bar> div w)" using w by (simp add: tdiv_def)
    moreover have "0 \<le> \<bar>v\<bar> div w" using w by (simp add: pos_imp_zdiv_nonneg_iff)
    ultimately show ?thesis by simp
  next
    case False
    have "- (2 ^ 63) \<le> d" using assms(1) by simp
    then have "v \<le> d" unfolding v_def wrap_def
      by (simp only: signed_take_bit_int_less_eq_self_iff)
    then have "v < w" using assms(2) by simp
    moreover have "0 \<le> v" using False by simp
    ultimately have "tdiv v w = 0" using w by (simp add: tdiv_nonneg)
    then show ?thesis by simp
  qed
  moreover from this have "clamp_end (tdiv v w) d = tdiv v w"
    using assms(1) by (simp add: clamp_end_def)
  ultimately show ?thesis by (simp add: z i)
qed

lemma cell_average_empty:
  assumes "width \<noteq> 0" "height \<noteq> 0" "empty_window img width height y x"
  shows "cell_average img width height y x = Inr zero_sums"
  using assms
  by (simp add: cell_average_eq block_average_def quo_Inr empty_window_def
      sample_block_empty average_zero)

text \<open>
  Claim C10.  A cell whose window is empty in some axis samples nothing: its sums stay zero,
  its gray value is 0, and it is emitted as \<open>@\<close>, in colour mode with the colour
  \<open>0;0;0\<close>.  The window of column 0 is empty when the output is wider than the image,
  and the window of row 0 is empty when the output is taller than the image.
\<close>

theorem empty_window_is_darkest:
  "(width \<noteq> 0 \<and> height \<noteq> 0 \<and> empty_window img width height y x \<longrightarrow>
      cell_average img width height y x = Inr zero_sums
      \<and> gray64 (rSum zero_sums) (gSum zero_sums) (bSum zero_sums) = 0
      \<and> plain_cell img width height y x = Inr CHR ''@''
      \<and> color_cell img width height y x = Inr (ESC # ''[38;2;0;0;0m@'' @ reset_seq))
   \<and> (0 < Dx img \<and> Dx img < width \<longrightarrow> empty_window img width height y 0)
   \<and> (0 < Dy img \<and> Dy img < height \<longrightarrow> empty_window img width height 0 x)"
proof (intro conjI impI)
  assume a: "width \<noteq> 0 \<and> height \<noteq> 0 \<and> empty_window img width height y x"
  then have w: "width \<noteq> 0" and h: "height \<noteq> 0" and e: "empty_window img width height y x"
    by simp_all
  show c: "cell_average img width height y x = Inr zero_sums"
    using w h e by (rule cell_average_empty)
  then have avg: "avg img width height y x = zero_sums" by (simp add: avg_def)
  show "gray64 (rSum zero_sums) (gSum zero_sums) (bSum zero_sums) = 0" by (rule gray64_zero)
  show "plain_cell img width height y x = Inr CHR ''@''"
    using plain_cell_avg[OF w h, of img y x] by (simp add: avg glyph_of_zero)
  show "color_cell img width height y x = Inr (ESC # ''[38;2;0;0;0m@'' @ reset_seq)"
    using color_cell_avg[OF w h, of img y x] by (simp add: avg colored_zero)
next
  assume a: "0 < Dx img \<and> Dx img < width"
  then have "clamp_end (tdiv (imul (0 + 1) (Dx img)) width) (Dx img) \<le> tdiv (imul 0 (Dx img)) width"
    by (intro first_window_empty) simp_all
  then show "empty_window img width height y 0"
    by (simp add: empty_window_def)
next
  assume a: "0 < Dy img \<and> Dy img < height"
  then have "clamp_end (tdiv (imul (0 + 1) (Dy img)) height) (Dy img) \<le> tdiv (imul 0 (Dy img)) height"
    by (intro first_window_empty) simp_all
  then show "empty_window img width height 0 x"
    by (simp add: empty_window_def)
qed

text \<open>Claim C10, witness: column 0 of a 1x1 image converted at width 2.\<close>

theorem empty_window_is_darkest_witness:
  "cell_average white1x1 2 1 0 0 = Inr zero_sums
   \<and> gray64 (rSum zero_sums) (gSum zero_sums) (bSum zero_sums) = 0
   \<and> plain_cell white1x1 2 1 0 0 = Inr CHR ''@''
   \<and> color_cell white1x1 2 1 0 0 = Inr (ESC # ''[38;2;0;0;0m@'' @ reset_seq)
   \<and> empty_window white1x1 2 1 0 0"
proof -
  note t = empty_window_is_darkest[of 2 1 white1x1 0 0]
  have d: "0 < Dx white1x1 \<and> Dx white1x1 < 2" by (simp add: white1x1_def)
  have e: "empty_window white1x1 2 1 0 0"
    by (rule mp[OF conjunct1[OF conjunct2[OF t]] d])
  have "(2::int) \<noteq> 0 \<and> (1::int) \<noteq> 0 \<and> empty_window white1x1 2 1 0 0"
    using e by simp
  from mp[OF conjunct1[OF t] this] e show ?thesis by simp
qed

subsection \<open>Upscaling\<close>

text \<open>
  Claim C5 at a uniformly white 1x1 image converted at width 2: the block-averaging converter
  prints \<open>@\<close> (index 0) for the empty window of column 0 and a blank (index 9) for
  column 1.
\<close>

theorem uniform_white_upscaled:
  "toASCII_par white1x1 2 0 [0] = Inr [''@ '']"
  by code_simp

text \<open>The sequential converter prints two blanks for the same input.\<close>

lemma uniform_white_upscaled_seq:
  "toASCII_seq white1x1 2 0 = Inr [''  '']"
  by code_simp

text \<open>
  Claim C7 at the 2x2 image with a black left and a white right column, converted at
  width 4 with the height expression truncated to 0: the block-averaging converter returns
  the one row \<open>@@@ \<close>, the window of column 2 being empty.
\<close>

theorem split_image_width_four:
  "toASCII_par split2x2 4 0 [0] = Inr [''@@@ '']"
  by code_simp

text \<open>The sequential converter returns the row \<open>@@  \<close> for the same input.\<close>

lemma split_image_width_four_seq:
  "toASCII_seq split2x2 4 0 = Inr [''@@  '']"
  by code_simp

lemma tdiv_in_bounds:
  assumes "0 < width" "0 < W" "0 \<le> x" "x < width"
  shows "0 \<le> tdiv (x * W) width \<and> tdiv (x * W) width < W"
proof -
  have xw: "0 \<le> x * W" using assms(2,3) by simp
  have a: "tdiv (x * W) width = (x * W) div width"
    using xw assms(1) by (rule tdiv_nonneg)
  have "0 \<le> (x * W) div width"
    using xw assms(1) by (simp add: pos_imp_zdiv_nonneg_iff)
  moreover have "x * W < W * width" using assms(2,4) by (simp add: mult.commute)
  then have "(x * W) div width < W" using assms(1) by (intro div_less_bound)
  ultimately show ?thesis by (simp add: a)
qed

text \<open>
  The sequential converter maps a uniformly coloured image to one glyph in every cell, as
  long as no product wraps and the rows can be allocated.
\<close>

lemma uniform_sequential:
  assumes "0 \<le> h0" "0 < Dx img" "0 < Dy img"
    and "width * Dx img < 2 ^ 31" "clamp_height h0 * Dy img < 2 ^ 31"
    and "clamp_height h0 \<le> max_strings"
    and "\<And>px py. 0 \<le> px \<Longrightarrow> px < Dx img \<Longrightarrow> 0 \<le> py \<Longrightarrow> py < Dy img \<Longrightarrow> At img px py = c"
  shows "toASCII_seq img width h0
         = Inr (replicate (nat (clamp_height h0)) (replicate (nat width) (pixel_glyph c)))"
proof -
  have h: "0 < clamp_height h0" using assms(1) by (rule clamp_height_pos)
  have cell: "pixel_glyph (At img (tdiv (imul x (Dx img)) width) (tdiv (imul (int j) (Dy img)) (clamp_height h0)))
              = pixel_glyph c"
    if "j < nat (clamp_height h0)" "x \<in> set [0..width - 1]" for j x
  proof -
    have x: "0 \<le> x" "x < width" using that(2) by simp_all
    then have w: "0 < width" by simp
    have j: "0 \<le> int j" "int j < clamp_height h0" using that(1) by simp_all
    have "imul x (Dx img) = x * Dx img"
      using x assms(2,4) by (intro imul_small[where c = width]) simp_all
    moreover have "imul (int j) (Dy img) = int j * Dy img"
      using j assms(3,5) by (intro imul_small[where c = "clamp_height h0"]) simp_all
    ultimately have "At img (tdiv (imul x (Dx img)) width) (tdiv (imul (int j) (Dy img)) (clamp_height h0)) = c"
      using tdiv_in_bounds[OF w assms(2) x] tdiv_in_bounds[OF h assms(3) j]
      by (intro assms(7)) simp_all
    then show ?thesis by simp
  qed
  have "map (\<lambda>j. map (\<lambda>x. pixel_glyph (At img (tdiv (imul x (Dx img)) width)
                                 (tdiv (imul (int j) (Dy img)) (clamp_height h0))))
                     [0..width - 1])
          [0..<nat (clamp_height h0)]
        = map (\<lambda>j. map (\<lambda>x. pixel_glyph c) [0..width - 1]) [0..<nat (clamp_height h0)]"
    using cell by (auto intro!: map_cong)
  also have "\<dots> = replicate (nat (clamp_height h0)) (replicate (nat width) (pixel_glyph c))"
    by (simp add: map_replicate_const)
  finally show ?thesis by (simp only: toASCII_seq_eq[OF assms(1,6)])
qed

subsection \<open>Rounding in the height expression\<close>

lemma pow2_powi: "pow2 k = 2 powi k"
  by (simp add: pow2_def power_int_def field_simps)

lemma pow2_pos: "0 < pow2 k"
  by (simp add: pow2_powi zero_less_power_int)

lemma pow2_add: "pow2 (a + b) = pow2 a * pow2 b"
  by (simp add: pow2_powi power_int_add)

lemma pow2_mono: "a \<le> b \<Longrightarrow> pow2 a \<le> pow2 b"
  by (simp add: pow2_powi power_int_increasing)

lemma pow2_strict: "a < b \<Longrightarrow> pow2 a < pow2 b"
  by (simp add: pow2_powi power_int_strict_increasing)

lemma pow2_less_cancel: "pow2 a < pow2 b \<Longrightarrow> a < b"
  using pow2_mono [of b a] by (cases "a < b") auto

lemma pow2_nat: "0 \<le> k \<Longrightarrow> pow2 k = of_int (2 ^ nat k)"
  by (simp add: pow2_def)

lemma pow2_zero: "pow2 0 = 1"
  by (simp add: pow2_def)

lemma pow2_succ: "pow2 (k + 1) = 2 * pow2 k"
  using pow2_add [of k 1] by (simp add: pow2_def)

lemma bitlen_bounds:
  "0 < n \<Longrightarrow> 1 \<le> bitlen n \<and> 2 ^ nat (bitlen n - 1) \<le> n \<and> n < 2 ^ nat (bitlen n)"
proof (induction n rule: bitlen.induct)
  case (1 n)
  have eq: "bitlen n = 1 + bitlen (n div 2)"
    using 1(2) by (subst bitlen.simps) simp
  show ?case
  proof (cases "n div 2 \<le> 0")
    case True
    hence "n = 1" using 1(2) by linarith
    moreover have "bitlen (n div 2) = 0"
      using True by (subst bitlen.simps) simp
    ultimately show ?thesis using eq by simp
  next
    case False
    hence pos: "0 < n div 2" by simp
    have "\<not> n \<le> 0" using 1(2) by simp
    from 1(1) [OF this pos]
    have ih: "1 \<le> bitlen (n div 2)" "2 ^ nat (bitlen (n div 2) - 1) \<le> n div 2"
      "n div 2 < 2 ^ nat (bitlen (n div 2))" by simp_all
    define b where "b = bitlen (n div 2)"
    have b1: "1 \<le> b" and lo: "2 ^ nat (b - 1) \<le> n div 2" and hi: "n div 2 < 2 ^ nat b"
      using ih by (simp_all add: b_def)
    have nb: "nat b = Suc (nat (b - 1))" using b1 by linarith
    have "(2::int) ^ nat b = 2 * 2 ^ nat (b - 1)" by (subst nb) simp
    hence lo': "2 ^ nat b \<le> n" using lo by linarith
    have "nat (1 + b) = Suc (nat b)" using b1 by linarith
    hence "(2::int) ^ nat (1 + b) = 2 * 2 ^ nat b" by simp
    hence hi': "n < 2 ^ nat (1 + b)" using hi by linarith
    show ?thesis using eq b1 lo' hi' by (simp add: b_def)
  qed
qed

lemma bitlen_pow2:
  assumes "0 < n"
  shows "pow2 (bitlen n - 1) \<le> of_int n" "of_int n < pow2 (bitlen n)"
proof -
  from bitlen_bounds [OF assms]
  have b: "1 \<le> bitlen n" "2 ^ nat (bitlen n - 1) \<le> n" "n < 2 ^ nat (bitlen n)" by simp_all
  have "(of_int (2 ^ nat (bitlen n - 1)) :: rat) \<le> of_int n"
    using b(2) by (rule iffD2 [OF of_int_le_iff])
  thus "pow2 (bitlen n - 1) \<le> of_int n" using b(1) by (simp add: pow2_nat)
  have "(of_int n :: rat) < of_int (2 ^ nat (bitlen n))"
    using b(3) by (rule iffD2 [OF of_int_less_iff])
  thus "of_int n < pow2 (bitlen n)" using b(1) by (simp add: pow2_nat)
qed

lemma binade_bounds:
  assumes "0 < q"
  shows "pow2 (binade q) \<le> q \<and> q < pow2 (binade q + 1)"
proof -
  obtain a b where ab: "quotient_of q = (a, b)" by (cases "quotient_of q")
  have bpos: "0 < b" using ab by (rule quotient_of_denom_pos)
  have q: "q = of_int a / of_int b" using ab by (rule quotient_of_div)
  have apos: "0 < a"
  proof (rule ccontr)
    assume "\<not> 0 < a"
    hence "(of_int a :: rat) \<le> 0" by simp
    hence "of_int a / of_int b \<le> (0::rat)" using bpos by (simp add: divide_nonpos_pos)
    thus False using q assms by simp
  qed
  define d where "d = bitlen a - bitlen b"
  have A: "of_int a < pow2 (bitlen a)" and B: "pow2 (bitlen b - 1) \<le> of_int b"
    using bitlen_pow2 [OF apos] bitlen_pow2 [OF bpos] by simp_all
  have bq: "(0::rat) < of_int b" using bpos by simp
  have "of_int a = q * of_int b" using q bq by simp
  hence "q * of_int b < pow2 (bitlen a)" using A by simp
  moreover have "q * pow2 (bitlen b - 1) \<le> q * of_int b"
    using B assms by (simp add: mult_left_mono)
  ultimately have "q * pow2 (bitlen b - 1) < pow2 (bitlen a)" by linarith
  moreover have "pow2 (bitlen a) = pow2 (d + 1) * pow2 (bitlen b - 1)"
    by (simp add: d_def pow2_add [symmetric])
  ultimately have "q * pow2 (bitlen b - 1) < pow2 (d + 1) * pow2 (bitlen b - 1)" by simp
  hence up: "q < pow2 (d + 1)" using pow2_pos [of "bitlen b - 1"] by simp
  have A': "pow2 (bitlen a - 1) \<le> of_int a" and B': "of_int b < pow2 (bitlen b)"
    using bitlen_pow2 [OF apos] bitlen_pow2 [OF bpos] by simp_all
  have "pow2 (bitlen a - 1) \<le> q * of_int b" using A' \<open>of_int a = q * of_int b\<close> by simp
  moreover have "q * of_int b < q * pow2 (bitlen b)"
    using B' assms by (simp add: mult_strict_left_mono)
  ultimately have "pow2 (bitlen a - 1) < q * pow2 (bitlen b)" by linarith
  moreover have "pow2 (bitlen a - 1) = pow2 (d - 1) * pow2 (bitlen b)"
    by (simp add: d_def pow2_add [symmetric])
  ultimately have "pow2 (d - 1) * pow2 (bitlen b) < q * pow2 (bitlen b)" by simp
  hence low: "pow2 (d - 1) < q" using pow2_pos [of "bitlen b"] by simp
  show ?thesis
  proof (cases "pow2 d \<le> q")
    case True
    hence "binade q = d" by (simp add: binade_def ab d_def Let_def)
    thus ?thesis using True up by simp
  next
    case False
    hence "binade q = d - 1" by (simp add: binade_def ab d_def Let_def)
    thus ?thesis using False low by simp
  qed
qed

lemma binade_less: "0 < q \<Longrightarrow> q < pow2 k \<Longrightarrow> binade q < k"
proof -
  assume "0 < q" "q < pow2 k"
  hence "pow2 (binade q) < pow2 k" using binade_bounds [of q] by linarith
  thus ?thesis by (rule pow2_less_cancel)
qed

lemma binade_ge: "pow2 k \<le> q \<Longrightarrow> k \<le> binade q"
proof -
  assume a: "pow2 k \<le> q"
  hence "0 < q" using pow2_pos [of k] by linarith
  hence "pow2 k < pow2 (binade q + 1)" using binade_bounds [of q] a by linarith
  hence "k < binade q + 1" by (rule pow2_less_cancel)
  thus ?thesis by simp
qed

lemma round_even_err: "\<bar>of_int (round_even m) - m\<bar> \<le> 1 / 2"
proof -
  have "of_int \<lfloor>m\<rfloor> \<le> m" "m < of_int \<lfloor>m\<rfloor> + 1" by linarith+
  thus ?thesis by (auto simp add: round_even_def Let_def)
qed

lemma round_even_nonneg: "0 \<le> m \<Longrightarrow> 0 \<le> round_even m"
  by (auto simp add: round_even_def Let_def)

lemma round64_pos_eq:
  assumes "0 < q"
  shows "round64 q = of_int (round_even (q / pow2 (max (binade q) (- 1022) - 52)))
           * pow2 (max (binade q) (- 1022) - 52)"
  using assms by (simp add: round64_def Let_def)

lemma round64_err:
  assumes "0 < q"
  shows "\<bar>round64 q - q\<bar> \<le> pow2 (max (binade q) (- 1022) - 53)" "0 \<le> round64 q"
proof -
  define u where "u = pow2 (max (binade q) (- 1022) - 52)"
  have upos: "0 < u" by (simp add: u_def pow2_pos)
  have r: "round64 q = of_int (round_even (q / u)) * u"
    using round64_pos_eq [OF assms] by (simp add: u_def)
  have "round64 q - q = (of_int (round_even (q / u)) - q / u) * u"
    using upos by (simp add: r field_simps)
  hence "\<bar>round64 q - q\<bar> = \<bar>of_int (round_even (q / u)) - q / u\<bar> * u"
    using upos by (simp add: abs_mult)
  also have "\<dots> \<le> (1 / 2) * u"
    using round_even_err [of "q / u"] upos by (simp add: mult_right_mono)
  also have "(1 / 2) * u = pow2 (max (binade q) (- 1022) - 53)"
  proof -
    have "pow2 (max (binade q) (- 1022) - 53 + 1) = 2 * pow2 (max (binade q) (- 1022) - 53)"
      by (rule pow2_succ)
    moreover have "max (binade q) (- 1022) - 53 + 1 = max (binade q) (- 1022) - 52" by simp
    ultimately show ?thesis by (simp add: u_def)
  qed
  finally show "\<bar>round64 q - q\<bar> \<le> pow2 (max (binade q) (- 1022) - 53)" .
  have "0 \<le> q / u" using assms upos by simp
  hence "0 \<le> round_even (q / u)" by (rule round_even_nonneg)
  thus "0 \<le> round64 q" using upos by (simp add: r)
qed

lemma round64_rel:
  assumes "pow2 (- 1022) \<le> q"
  shows "\<bar>round64 q - q\<bar> \<le> q * pow2 (- 53)"
proof -
  have qpos: "0 < q" using assms pow2_pos [of "- 1022"] by linarith
  have "- 1022 \<le> binade q" using assms by (rule binade_ge)
  hence m: "max (binade q) (- 1022) = binade q" by simp
  have "\<bar>round64 q - q\<bar> \<le> pow2 (binade q - 53)"
    using round64_err(1) [OF qpos] by (simp add: m)
  also have "pow2 (binade q - 53) = pow2 (binade q) * pow2 (- 53)"
    using pow2_add [of "binade q" "- 53"] by simp
  also have "\<dots> \<le> q * pow2 (- 53)"
    using binade_bounds [OF qpos] pow2_pos [of "- 53"] by (simp add: mult_right_mono)
  finally show ?thesis .
qed

lemma round64_small:
  assumes "0 < q" "q < pow2 (- 1022)"
  shows "round64 q \<le> q + pow2 (- 1075)"
proof -
  have "binade q < - 1022" using assms by (rule binade_less)
  hence m: "max (binade q) (- 1022) - 53 = - 1075" by simp
  have "\<bar>round64 q - q\<bar> \<le> pow2 (- 1075)"
    using round64_err(1) [OF assms(1)] by (simp only: m)
  thus ?thesis by linarith
qed

lemma pow2_m53: "pow2 (- 53) = 1 / 9007199254740992"
  by (simp add: pow2_def)

lemma ulp_c_gt1: "1 < ulp_c" "0 < ulp_c"
  by (simp_all add: ulp_c_def)

lemma ulp_c_pow_pos: "0 < ulp_c ^ k"
  by (simp add: ulp_c_gt1)

lemma near_refl: "0 < a \<Longrightarrow> near 0 a a"
  by (simp add: near_def)

lemma near_round:
  assumes "near k a x" "pow2 (- 1022) \<le> x"
  shows "near (Suc k) a (round64 x)"
proof -
  have xpos: "0 < x" and apos: "0 < a" and le1: "x \<le> a * ulp_c ^ k" and le2: "a \<le> x * ulp_c ^ k"
    using assms(1) by (simp_all add: near_def)
  have e: "\<bar>round64 x - x\<bar> \<le> x * (1 / 9007199254740992)"
    using round64_rel [OF assms(2)] by (simp only: pow2_m53)
  have up: "round64 x \<le> x * ulp_c"
  proof -
    have "round64 x \<le> x * (9007199254740993 / 9007199254740992)" using e by linarith
    moreover have "x * (9007199254740993 / 9007199254740992) \<le> x * ulp_c"
      using xpos by (simp only: mult_le_cancel_left_pos) (simp add: ulp_c_def)
    ultimately show ?thesis by linarith
  qed
  have lo: "x \<le> round64 x * ulp_c"
  proof -
    have "x * (9007199254740991 / 9007199254740992) \<le> round64 x" using e by linarith
    hence "x * (9007199254740991 / 9007199254740992) * ulp_c \<le> round64 x * ulp_c"
      using ulp_c_gt1(2) by (simp only: mult_le_cancel_right_pos)
    thus ?thesis by (simp add: ulp_c_def)
  qed
  have rpos: "0 < round64 x"
  proof -
    have "0 < x * (9007199254740991 / 9007199254740992)" using xpos by simp
    moreover have "x * (9007199254740991 / 9007199254740992) \<le> round64 x" using e by linarith
    ultimately show ?thesis by linarith
  qed
  have "round64 x \<le> a * ulp_c ^ k * ulp_c"
    using up le1 ulp_c_gt1(2) by (meson mult_right_mono less_imp_le order_trans)
  moreover have "a \<le> round64 x * ulp_c * ulp_c ^ k"
    using lo le2 ulp_c_pow_pos [of k] by (meson mult_right_mono less_imp_le order_trans)
  ultimately show ?thesis using apos rpos by (simp add: near_def mult_ac)
qed

lemma near_mult:
  assumes "near j a x" "near k b y"
  shows "near (j + k) (a * b) (x * y)"
proof -
  have A: "0 < a" "0 < x" "x \<le> a * ulp_c ^ j" "a \<le> x * ulp_c ^ j"
    using assms(1) by (simp_all add: near_def)
  have B: "0 < b" "0 < y" "y \<le> b * ulp_c ^ k" "b \<le> y * ulp_c ^ k"
    using assms(2) by (simp_all add: near_def)
  have "x * y \<le> (a * ulp_c ^ j) * (b * ulp_c ^ k)"
    using A B by (intro mult_mono) simp_all
  moreover have "a * b \<le> (x * ulp_c ^ j) * (y * ulp_c ^ k)"
    using A B by (intro mult_mono) simp_all
  ultimately show ?thesis using A B by (simp add: near_def power_add mult_ac)
qed

lemma near_div:
  assumes "near j a x" "near k b y"
  shows "near (j + k) (a / b) (x / y)"
proof -
  have A: "0 < a" "0 < x" "x \<le> a * ulp_c ^ j" "a \<le> x * ulp_c ^ j"
    using assms(1) by (simp_all add: near_def)
  have B: "0 < b" "0 < y" "y \<le> b * ulp_c ^ k" "b \<le> y * ulp_c ^ k"
    using assms(2) by (simp_all add: near_def)
  have cj: "0 < ulp_c ^ j" and ck: "0 < ulp_c ^ k" by (rule ulp_c_pow_pos)+
  have "x * b \<le> (a * ulp_c ^ j) * (y * ulp_c ^ k)"
    using A B by (intro mult_mono) simp_all
  hence "x / y \<le> a * ulp_c ^ j * ulp_c ^ k / b"
    using B by (simp add: field_simps)
  moreover have "a * y \<le> (x * ulp_c ^ j) * (b * ulp_c ^ k)"
    using A B by (intro mult_mono) simp_all
  hence "a / b \<le> x * ulp_c ^ j * ulp_c ^ k / y"
    using B by (simp add: field_simps)
  ultimately show ?thesis using A B by (simp add: near_def power_add mult_ac)
qed

lemma near_scale:
  assumes "near j a x" "0 < s"
  shows "near j (a * s) (x * s)"
  using assms by (simp add: near_def mult_ac)

lemma near_bounds:
  assumes "near k a x" "k \<le> 6"
  shows "a / 2 \<le> x" "x \<le> a * 2"
proof -
  have A: "0 < a" "0 < x" "x \<le> a * ulp_c ^ k" "a \<le> x * ulp_c ^ k"
    using assms(1) by (simp_all add: near_def)
  have "ulp_c ^ k \<le> ulp_c ^ 6"
    using assms(2) ulp_c_gt1 by (simp add: power_increasing)
  moreover have "ulp_c ^ 6 \<le> 2" by (simp add: ulp_c_def power_divide)
  ultimately have c: "ulp_c ^ k \<le> 2" by linarith
  have "a * ulp_c ^ k \<le> a * 2" using c A(1) by (simp only: mult_le_cancel_left_pos)
  thus "x \<le> a * 2" using A(3) by linarith
  have "x * ulp_c ^ k \<le> x * 2" using c A(2) by (simp only: mult_le_cancel_left_pos)
  thus "a / 2 \<le> x" using A(4) by linarith
qed

lemma normal_ge: "1 / 2 ^ 40 \<le> x \<Longrightarrow> pow2 (- 1022) \<le> x"
proof -
  assume a: "1 / 2 ^ 40 \<le> x"
  have "pow2 (- 1022) \<le> pow2 (- 40)" by (rule pow2_mono) simp
  moreover have "pow2 (- 40) = 1 / 2 ^ 40" by (simp add: pow2_def)
  ultimately show ?thesis using a by linarith
qed

lemma fl_ok:
  assumes "0 \<le> round64 x" "round64 x \<le> 2 ^ 70"
  shows "fl x = Some (round64 x)"
proof (cases "round64 x = 0")
  case True
  thus ?thesis by (simp add: fl_def Let_def)
next
  case False
  hence pos: "0 < round64 x" using assms(1) by simp
  have "pow2 70 = 2 ^ 70" by (simp add: pow2_def)
  moreover have "pow2 70 < pow2 71" by (rule pow2_strict) simp
  ultimately have "round64 x < pow2 71" using assms(2) by linarith
  with pos have "binade (round64 x) < 71" by (rule binade_less)
  hence "binade \<bar>round64 x\<bar> < 1024" using pos by simp
  thus ?thesis by (simp add: fl_def Let_def)
qed

lemma to_int_ok:
  assumes "0 \<le> r" "r < 2 ^ 63"
  shows "to_int r = Some \<lfloor>r\<rfloor>"
proof -
  have "0 \<le> \<lfloor>r\<rfloor>" using assms(1) by simp
  moreover have "\<lfloor>r\<rfloor> < 2 ^ 63" using assms(2) by (simp add: floor_less_iff)
  ultimately show ?thesis using assms(1) by (simp add: to_int_def Let_def)
qed

lemma near_int:
  assumes "0 < n" "n < 2 ^ 31"
  shows "near 1 (of_int n) (round64 (of_int n))"
    and "fl (of_int n) = Some (round64 (of_int n))"
    and "1 / 2 \<le> round64 (of_int n)"
    and "round64 (of_int n) \<le> 2 ^ 32"
proof -
  have lo: "(1::rat) \<le> of_int n" using assms(1) by simp
  have "(of_int n :: rat) < of_int (2 ^ 31)" using assms(2) by (simp only: of_int_less_iff)
  hence hi: "(of_int n :: rat) \<le> 2 ^ 31" by simp
  have "near 0 (of_int n :: rat) (of_int n)" using lo by (intro near_refl) simp
  moreover have "pow2 (- 1022) \<le> (of_int n :: rat)" using lo by (intro normal_ge) simp
  ultimately have "near (Suc 0) (of_int n) (round64 (of_int n))" by (rule near_round)
  thus n: "near 1 (of_int n) (round64 (of_int n))" by simp
  have b: "of_int n / 2 \<le> round64 (of_int n)" "round64 (of_int n) \<le> of_int n * 2"
    using near_bounds [OF n] by simp_all
  show "1 / 2 \<le> round64 (of_int n)" using b(1) lo by linarith
  show le: "round64 (of_int n) \<le> 2 ^ 32" using b(2) hi by simp
  have "0 \<le> round64 (of_int n)" using b(1) lo by linarith
  moreover have "round64 (of_int n) \<le> 2 ^ 70" using le by simp
  ultimately show "fl (of_int n) = Some (round64 (of_int n))" by (rule fl_ok)
qed

lemma near_fl:
  assumes "near k a x" "k \<le> 5" "1 / 2 ^ 40 \<le> a" "a \<le> 2 ^ 68"
  shows "near (Suc k) a (round64 x)" "fl x = Some (round64 x)"
proof -
  have b: "a / 2 \<le> x" using near_bounds(1) [OF assms(1)] assms(2) by simp
  have "pow2 (- 1022) \<le> pow2 (- 41)" by (rule pow2_mono) simp
  moreover have "pow2 (- 41) = 1 / 2 ^ 41" by (simp add: pow2_def)
  moreover have "(1::rat) / 2 ^ 41 = 1 / 2 ^ 40 / 2" by simp
  moreover have "1 / 2 ^ 40 / 2 \<le> a / 2" using assms(3) by (rule divide_right_mono) simp
  ultimately have "pow2 (- 1022) \<le> x" using b by linarith
  with assms(1) show n: "near (Suc k) a (round64 x)" by (rule near_round)
  have "Suc k \<le> 6" using assms(2) by simp
  from near_bounds [OF n this]
  have c: "a / 2 \<le> round64 x" "round64 x \<le> a * 2" by simp_all
  have "0 \<le> round64 x" using c(1) assms(3) by simp
  moreover have "round64 x \<le> 2 ^ 70" using c(2) assms(4) by simp
  ultimately show "fl x = Some (round64 x)" by (rule fl_ok)
qed

lemma ulp_c_6: "ulp_c ^ 6 \<le> 1 + 1 / 2 ^ 50" "ulp_c ^ 6 * (1 - 1 / 2 ^ 50) \<le> 1"
  by (simp_all add: ulp_c_def power_divide)

lemma height_expr_bounds:
  fixes H Wd W :: int and s :: rat
  assumes "0 < H" "H < 2 ^ 31" "0 < Wd" "Wd < 2 ^ 31" "0 < W" "W < 2 ^ 31" "0 < s"
    and "of_int H * of_int Wd / of_int W * s < 2 ^ 24"
  shows "\<exists>h0. height_expr H Wd W s = Some h0
           \<and> \<lfloor>of_int H * of_int Wd / of_int W * s * (1 - 1 / 2 ^ 50)\<rfloor> \<le> h0
           \<and> h0 \<le> \<lfloor>of_int H * of_int Wd / of_int W * s * (1 + 1 / 2 ^ 50)\<rfloor>"
proof -
  define h where "h = round64 (of_int H)"
  define w where "w = round64 (of_int Wd)"
  define d where "d = round64 (of_int W)"
  define p where "p = round64 (h * w)"
  define q where "q = round64 (p / d)"
  define r where "r = round64 (q * s)"
  define E0 :: rat where "E0 = of_int H * of_int Wd / of_int W"
  define E where "E = E0 * s"
  have Hr: "(1::rat) \<le> of_int H" "(of_int H :: rat) \<le> 2 ^ 31"
  proof -
    show "(1::rat) \<le> of_int H" using assms(1) by simp
    have "(of_int H :: rat) < of_int (2 ^ 31)" using assms(2) by (simp only: of_int_less_iff)
    thus "(of_int H :: rat) \<le> 2 ^ 31" by simp
  qed
  have Wdr: "(1::rat) \<le> of_int Wd" "(of_int Wd :: rat) \<le> 2 ^ 31"
  proof -
    show "(1::rat) \<le> of_int Wd" using assms(3) by simp
    have "(of_int Wd :: rat) < of_int (2 ^ 31)" using assms(4) by (simp only: of_int_less_iff)
    thus "(of_int Wd :: rat) \<le> 2 ^ 31" by simp
  qed
  have Wr: "(1::rat) \<le> of_int W" "(of_int W :: rat) \<le> 2 ^ 31"
  proof -
    show "(1::rat) \<le> of_int W" using assms(5) by simp
    have "(of_int W :: rat) < of_int (2 ^ 31)" using assms(6) by (simp only: of_int_less_iff)
    thus "(of_int W :: rat) \<le> 2 ^ 31" by simp
  qed
  have nh: "near 1 (of_int H) h" and fh: "fl (of_int H) = Some h"
    using near_int [OF assms(1,2)] by (simp_all add: h_def)
  have nw: "near 1 (of_int Wd) w" and fw: "fl (of_int Wd) = Some w"
    using near_int [OF assms(3,4)] by (simp_all add: w_def)
  have nd: "near 1 (of_int W) d" and fd: "fl (of_int W) = Some d" and dpos: "1 / 2 \<le> d"
    using near_int [OF assms(5,6)] by (simp_all add: d_def)
  have HW: "(1::rat) \<le> of_int H * of_int Wd" "(of_int H * of_int Wd :: rat) \<le> 2 ^ 31 * 2 ^ 31"
  proof -
    have "(1::rat) * 1 \<le> of_int H * of_int Wd" using Hr(1) Wdr(1) by (intro mult_mono) simp_all
    thus "(1::rat) \<le> of_int H * of_int Wd" by simp
    show "(of_int H * of_int Wd :: rat) \<le> 2 ^ 31 * 2 ^ 31"
      using Hr Wdr by (intro mult_mono) simp_all
  qed
  have "near (1 + 1) (of_int H * of_int Wd) (h * w)" using nh nw by (rule near_mult)
  hence nhw: "near 2 (of_int H * of_int Wd) (h * w)" by (simp add: eval_nat_numeral)
  have np': "near (Suc 2) (of_int H * of_int Wd) p" and fp: "fl (h * w) = Some p"
    unfolding p_def using HW by (intro near_fl [OF nhw]; simp)+
  have np: "near 3 (of_int H * of_int Wd) p" using np' by (simp add: eval_nat_numeral)
  have "near (3 + 1) (of_int H * of_int Wd / of_int W) (p / d)" using np nd by (rule near_div)
  hence npd: "near 4 E0 (p / d)" by (simp add: E0_def)
  have E0b: "1 / 2 ^ 31 \<le> E0" "E0 \<le> 2 ^ 31 * 2 ^ 31"
  proof -
    have "1 / of_int W \<le> E0"
      unfolding E0_def using HW(1) Wr(1) by (intro divide_right_mono) simp_all
    moreover have "(1::rat) / 2 ^ 31 \<le> 1 / of_int W"
      using Wr by (intro divide_left_mono) simp_all
    ultimately show "1 / 2 ^ 31 \<le> E0" by linarith
    have "E0 \<le> of_int H * of_int Wd / 1"
      unfolding E0_def using HW(1) Wr(1) by (intro divide_left_mono) simp_all
    thus "E0 \<le> 2 ^ 31 * 2 ^ 31" using HW(2) by simp
  qed
  have nq': "near (Suc 4) E0 q" and fq: "fl (p / d) = Some q"
    unfolding q_def using E0b by (intro near_fl [OF npd]; simp)+
  have nq: "near 5 E0 q" using nq' by (simp add: eval_nat_numeral)
  have nqs: "near 5 E (q * s)" unfolding E_def using nq assms(7) by (rule near_scale)
  have Elt: "E < 2 ^ 24" using assms(8) by (simp add: E_def E0_def)
  have Epos: "0 < E" using nqs by (simp add: near_def)
  have dnz: "d \<noteq> 0" using dpos by auto
  have he: "height_expr H Wd W s = Option.bind (fl (q * s)) to_int"
    using fh fw fp fd fq dnz by (simp add: height_expr_def)
  have rnn: "0 \<le> r" unfolding r_def
    using nqs by (intro round64_err(2)) (simp add: near_def)
  have main: "r < 2 ^ 25 \<and> \<lfloor>E * (1 - 1 / 2 ^ 50)\<rfloor> \<le> \<lfloor>r\<rfloor> \<and> \<lfloor>r\<rfloor> \<le> \<lfloor>E * (1 + 1 / 2 ^ 50)\<rfloor>"
  proof (cases "pow2 (- 1022) \<le> q * s")
    case True
    with nqs have "near (Suc 5) E r" unfolding r_def by (rule near_round)
    hence n6: "near 6 E r" by (simp add: eval_nat_numeral)
    hence b: "r \<le> E * ulp_c ^ 6" "E \<le> r * ulp_c ^ 6" by (simp_all add: near_def)
    have "E * ulp_c ^ 6 \<le> E * (1 + 1 / 2 ^ 50)"
      using Epos ulp_c_6(1) by (simp only: mult_le_cancel_left_pos)
    hence up: "r \<le> E * (1 + 1 / 2 ^ 50)" using b(1) by linarith
    have "E * (1 - 1 / 2 ^ 50) \<le> r * ulp_c ^ 6 * (1 - 1 / 2 ^ 50)"
      using b(2) by (intro mult_right_mono) simp_all
    moreover have "r * (ulp_c ^ 6 * (1 - 1 / 2 ^ 50)) \<le> r * 1"
      using rnn ulp_c_6(2) by (intro mult_left_mono)
    ultimately have lo: "E * (1 - 1 / 2 ^ 50) \<le> r" by (simp add: mult.assoc)
    have "r \<le> E * 2" using near_bounds(2) [OF n6] by simp
    hence "r < 2 ^ 25" using Elt by simp
    thus ?thesis using lo up by (simp add: floor_mono)
  next
    case False
    hence small: "q * s < pow2 (- 1022)" by simp
    have qs: "0 < q * s" using nqs by (simp add: near_def)
    have "r \<le> q * s + pow2 (- 1075)" unfolding r_def using qs small by (rule round64_small)
    moreover have "pow2 (- 1075) \<le> pow2 (- 3)" by (rule pow2_mono) simp
    moreover have "pow2 (- 1022) \<le> pow2 (- 3)" by (rule pow2_mono) simp
    moreover have p3: "pow2 (- 3) = 1 / 8" by (simp add: pow2_def)
    ultimately have r4: "r \<le> 1 / 4" "q * s \<le> 1 / 8" using small by linarith+
    have "E / 2 \<le> q * s" using near_bounds(1) [OF nqs] by simp
    hence E4: "E \<le> 1 / 4" using r4(2) by linarith
    have lo: "E * (1 - 1 / 2 ^ 50) \<le> E * 1"
      using Epos by (simp only: mult_le_cancel_left_pos) simp
    hence "E * (1 - 1 / 2 ^ 50) < 1" using E4 by simp
    hence "\<lfloor>E * (1 - 1 / 2 ^ 50)\<rfloor> < 1" by (simp add: floor_less_iff)
    hence f1: "\<lfloor>E * (1 - 1 / 2 ^ 50)\<rfloor> \<le> 0" by simp
    have "0 \<le> E * (1 + 1 / 2 ^ 50)" using Epos by simp
    hence f2: "0 \<le> \<lfloor>E * (1 + 1 / 2 ^ 50)\<rfloor>" by simp
    have "r < 1" using r4(1) by simp
    hence "\<lfloor>r\<rfloor> < 1" by (simp add: floor_less_iff)
    moreover have "0 \<le> \<lfloor>r\<rfloor>" using rnn by simp
    ultimately have f3: "\<lfloor>r\<rfloor> = 0" by linarith
    have "r < 2 ^ 25" using r4(1) by simp
    thus ?thesis using f1 f2 f3 by simp
  qed
  have "r \<le> 2 ^ 70" using main by simp
  with rnn have "fl (q * s) = Some r" unfolding r_def by (rule fl_ok)
  moreover have "to_int r = Some \<lfloor>r\<rfloor>" using rnn main by (intro to_int_ok) simp_all
  ultimately have "height_expr H Wd W s = Some \<lfloor>r\<rfloor>" using he by simp
  thus ?thesis using main by (simp add: E_def E0_def)
qed

subsection \<open>Output height\<close>

lemma H_out_floor:
  "H_out img W_out s = clamp_height \<lfloor>of_int (Dy img) * of_int W_out / of_int (Dx img) * s\<rfloor>"
  by (simp add: H_out_def clamp_height_def Let_def)

lemma clamp_height_mono: "0 \<le> a \<Longrightarrow> a \<le> b \<Longrightarrow> clamp_height a \<le> clamp_height b"
  by (simp add: clamp_height_def)

lemma height_sandwich:
  assumes "0 < Dx img" "Dx img < 2 ^ 31" "0 < Dy img" "Dy img < 2 ^ 31"
    and "0 < width" "width < 2 ^ 31" "0 < scale" "H_out img width scale < 2 ^ 24"
  shows "\<exists>h0. height_expr (Dy img) width (Dx img) scale = Some h0
           \<and> 0 \<le> h0 \<and> clamp_height h0 \<le> max_strings
           \<and> H_out img width (scale * (1 - 1 / 2 ^ 50)) \<le> clamp_height h0
           \<and> clamp_height h0 \<le> H_out img width (scale * (1 + 1 / 2 ^ 50))
           \<and> (H_out img width (scale * (1 - 1 / 2 ^ 50)) = H_out img width (scale * (1 + 1 / 2 ^ 50))
                \<longrightarrow> clamp_height h0 = H_out img width scale)"
proof -
  define E0 :: rat where "E0 = of_int (Dy img) * of_int width / of_int (Dx img)"
  have E0pos: "0 < E0" using assms(1,3,5) by (simp add: E0_def)
  have Epos: "0 < E0 * scale" using E0pos assms(7) by simp
  have fl0: "0 \<le> \<lfloor>E0 * scale\<rfloor>" using Epos by simp
  have Hmid: "H_out img width scale = clamp_height \<lfloor>E0 * scale\<rfloor>"
    unfolding E0_def by (rule H_out_floor)
  have "\<lfloor>E0 * scale\<rfloor> \<le> clamp_height \<lfloor>E0 * scale\<rfloor>" by (simp add: clamp_height_def)
  hence "\<lfloor>E0 * scale\<rfloor> < 2 ^ 24" using assms(8) Hmid by linarith
  hence Elt: "E0 * scale < 2 ^ 24" by (simp add: floor_less_iff)
  from height_expr_bounds [OF assms(3,4,5,6,1,2,7)] Elt
  obtain h0 where h0: "height_expr (Dy img) width (Dx img) scale = Some h0"
      "\<lfloor>E0 * scale * (1 - 1 / 2 ^ 50)\<rfloor> \<le> h0" "h0 \<le> \<lfloor>E0 * scale * (1 + 1 / 2 ^ 50)\<rfloor>"
    unfolding E0_def by blast
  have lo: "E0 * scale * (1 - 1 / 2 ^ 50) \<le> E0 * scale * 1"
    using Epos by (simp only: mult_le_cancel_left_pos) simp
  have up: "E0 * scale * 1 \<le> E0 * scale * (1 + 1 / 2 ^ 50)"
    using Epos by (simp only: mult_le_cancel_left_pos) simp
  have nn: "0 \<le> E0 * scale * (1 - 1 / 2 ^ 50)" using Epos by simp
  hence f0: "0 \<le> \<lfloor>E0 * scale * (1 - 1 / 2 ^ 50)\<rfloor>" by simp
  hence h0nn: "0 \<le> h0" using h0(2) by linarith
  have f1: "\<lfloor>E0 * scale * (1 - 1 / 2 ^ 50)\<rfloor> \<le> \<lfloor>E0 * scale\<rfloor>" using lo by (simp add: floor_mono)
  have f2: "\<lfloor>E0 * scale\<rfloor> \<le> \<lfloor>E0 * scale * (1 + 1 / 2 ^ 50)\<rfloor>" using up by (simp add: floor_mono)
  have "E0 * scale * (1 + 1 / 2 ^ 50) \<le> E0 * scale * 2"
    using Epos by (simp only: mult_le_cancel_left_pos) simp
  hence "E0 * scale * (1 + 1 / 2 ^ 50) < 2 ^ 25" using Elt by simp
  hence "\<lfloor>E0 * scale * (1 + 1 / 2 ^ 50)\<rfloor> < 2 ^ 25" by (simp add: floor_less_iff)
  hence "h0 < 2 ^ 25" using h0(3) by linarith
  hence ms: "clamp_height h0 \<le> max_strings" by (simp add: clamp_height_def max_strings_def)
  have Hlo: "H_out img width (scale * (1 - 1 / 2 ^ 50)) = clamp_height \<lfloor>E0 * scale * (1 - 1 / 2 ^ 50)\<rfloor>"
    unfolding E0_def by (simp only: H_out_floor mult.assoc)
  have Hup: "H_out img width (scale * (1 + 1 / 2 ^ 50)) = clamp_height \<lfloor>E0 * scale * (1 + 1 / 2 ^ 50)\<rfloor>"
    unfolding E0_def by (simp only: H_out_floor mult.assoc)
  have a: "H_out img width (scale * (1 - 1 / 2 ^ 50)) \<le> clamp_height h0"
    unfolding Hlo using f0 h0(2) by (rule clamp_height_mono)
  have b: "clamp_height h0 \<le> H_out img width (scale * (1 + 1 / 2 ^ 50))"
    unfolding Hup using h0nn h0(3) by (rule clamp_height_mono)
  have c: "H_out img width (scale * (1 - 1 / 2 ^ 50)) \<le> H_out img width scale"
    unfolding Hlo Hmid using f0 f1 by (rule clamp_height_mono)
  have d: "H_out img width scale \<le> H_out img width (scale * (1 + 1 / 2 ^ 50))"
    unfolding Hup Hmid using fl0 f2 by (rule clamp_height_mono)
  have "H_out img width (scale * (1 - 1 / 2 ^ 50)) = H_out img width (scale * (1 + 1 / 2 ^ 50))
          \<longrightarrow> clamp_height h0 = H_out img width scale"
    using a b c d by linarith
  thus ?thesis using h0(1) h0nn ms a b by blast
qed

lemma par_rows_shape:
  assumes "0 \<le> h0" "schedule (clamp_height h0) order" "clamp_height h0 \<le> max_strings"
  shows "\<exists>rows. toASCII_par img width h0 order = Inr rows
            \<and> int (length rows) = clamp_height h0
            \<and> (\<forall>row\<in>set rows. length row = nat width \<and> set row \<subseteq> set palette)"
    and "\<exists>rows. colorASCII_par img width h0 order = Inr rows
            \<and> int (length rows) = clamp_height h0
            \<and> (\<forall>row\<in>set rows. \<exists>cells. parse_cells (nat width) row = Some cells
                  \<and> (\<forall>(r, g, b, c)\<in>set cells. c \<in> set palette))"
proof -
  have h: "0 < clamp_height h0" using assms(1) by (rule clamp_height_pos)
  then have nz: "clamp_height h0 \<noteq> 0" by simp
  let ?rows = "map (\<lambda>j. map (\<lambda>x. glyph_of (avg img width (clamp_height h0) (int j) x)) [0..width - 1])
                 [0..<nat (clamp_height h0)]"
  have "\<forall>row\<in>set ?rows. length row = nat width \<and> set row \<subseteq> set palette"
  proof
    fix row assume "row \<in> set ?rows"
    then obtain j where row: "row = map (\<lambda>x. glyph_of (avg img width (clamp_height h0) (int j) x)) [0..width - 1]"
      by auto
    have "glyph_of (avg img width (clamp_height h0) (int j) x) \<in> set palette"
      if "0 \<le> x" "x < width" for x
    proof -
      have "width \<noteq> 0" using that by auto
      then show ?thesis using avg_ok(2)[OF _ nz] by (intro glyph_in_palette(5))
    qed
    then show "length row = nat width \<and> set row \<subseteq> set palette"
      unfolding row by auto
  qed
  moreover have "int (length ?rows) = clamp_height h0" using h by simp
  ultimately show "\<exists>rows. toASCII_par img width h0 order = Inr rows
            \<and> int (length rows) = clamp_height h0
            \<and> (\<forall>row\<in>set rows. length row = nat width \<and> set row \<subseteq> set palette)"
    using toASCII_par_eq[OF assms, of img width] by blast
  let ?crows = "map (\<lambda>j. concat (map (\<lambda>x. colored (avg img width (clamp_height h0) (int j) x)) [0..width - 1]))
                  [0..<nat (clamp_height h0)]"
  have "\<forall>row\<in>set ?crows. \<exists>cells. parse_cells (nat width) row = Some cells
                  \<and> (\<forall>(r, g, b, c)\<in>set cells. c \<in> set palette)"
  proof
    fix row assume "row \<in> set ?crows"
    then obtain j where row: "row = concat (map (\<lambda>x. colored (avg img width (clamp_height h0) (int j) x)) [0..width - 1])"
      by auto
    show "\<exists>cells. parse_cells (nat width) row = Some cells
                  \<and> (\<forall>(r, g, b, c)\<in>set cells. c \<in> set palette)"
      unfolding row using h by (rule color_row_cells)
  qed
  moreover have "int (length ?crows) = clamp_height h0" using h by simp
  ultimately show "\<exists>rows. colorASCII_par img width h0 order = Inr rows
            \<and> int (length rows) = clamp_height h0
            \<and> (\<forall>row\<in>set rows. \<exists>cells. parse_cells (nat width) row = Some cells
                  \<and> (\<forall>(r, g, b, c)\<in>set cells. c \<in> set palette))"
    using colorASCII_par_eq[OF assms, of img width] by blast
qed

lemma seq_rows_nonempty:
  assumes "0 \<le> h0" "clamp_height h0 \<le> max_strings"
  shows "\<exists>rows. toASCII_seq img width h0 = Inr rows \<and> int (length rows) = clamp_height h0"
proof -
  have h: "0 < clamp_height h0" using assms(1) by (rule clamp_height_pos)
  show ?thesis using toASCII_seq_eq [OF assms, of img width] h by simp
qed

text \<open>Values of the height expression.\<close>

lemma height_expr_half: "height_expr 2 4 2 (1 / 2) = Some 2"
  by code_simp

lemma height_expr_one: "height_expr 1 2 2 1 = Some 1"
  by code_simp

text \<open>
  At the default scale 0.15 of the flag, that is at the \<^verbatim>\<open>float64\<close> nearest to it, the
  height expression is 0 for the 1x1 image at width 2 and for the 2x2 image at width 4, so
  that the height after the clamp is 1.
\<close>

lemma height_expr_default_scale:
  "height_expr (Dy white1x1) 2 (Dx white1x1) (round64 (15 / 100)) = Some 0"
  "height_expr (Dy split2x2) 4 (Dx split2x2) (round64 (15 / 100)) = Some 0"
  by (simp_all add: white1x1_def split2x2_def) code_simp+

lemma height_expr_7x8: "height_expr 8 61 7 (7 / 8) = Some 60"
  by code_simp

lemma schedule_one: "schedule (clamp_height 1) [0]"
  by (simp add: schedule_def clamp_height_def)

lemma schedule_sixty: "schedule (clamp_height 60) [0..59]"
  by (simp add: schedule_def clamp_height_def)

text \<open>
  Claim C4, as amended.  For an image of positive width and height below \<open>2^31\<close>, a
  positive output width below \<open>2^31\<close> and a positive scale such that the specified height
  \<open>H_out\<close> is below \<open>2^24\<close>, the height expression has a value \<open>h0 \<ge> 0\<close>, and the height after
  the clamp is at least 1 and lies between the specified height \<open>H_out\<close> for the scale
  \<open>s * (1 - 2^-50)\<close> and the one for \<open>s * (1 + 2^-50)\<close>; where these two agree, it is \<open>H_out\<close>
  for \<open>s\<close>.  The sequential converter, and on every schedule both goroutine converters,
  return without a panic at least one row.
\<close>

theorem output_height_within_rounding:
  assumes "0 < Dx img" "Dx img < 2 ^ 31" "0 < Dy img" "Dy img < 2 ^ 31"
    and "0 < width" "width < 2 ^ 31" "0 < scale" "H_out img width scale < 2 ^ 24"
  shows "\<exists>h0. height_expr (Dy img) width (Dx img) scale = Some h0
           \<and> 0 \<le> h0 \<and> 1 \<le> clamp_height h0
           \<and> H_out img width (scale * (1 - 1 / 2 ^ 50)) \<le> clamp_height h0
           \<and> clamp_height h0 \<le> H_out img width (scale * (1 + 1 / 2 ^ 50))
           \<and> (H_out img width (scale * (1 - 1 / 2 ^ 50)) = H_out img width (scale * (1 + 1 / 2 ^ 50))
                \<longrightarrow> clamp_height h0 = H_out img width scale)
           \<and> (\<exists>rows. toASCII_sequential img width scale = Some (Inr rows) \<and> rows \<noteq> [])
           \<and> (\<forall>order. schedule (clamp_height h0) order \<longrightarrow>
                 (\<exists>rows. toASCII_goroutines img width scale order = Some (Inr rows) \<and> rows \<noteq> [])
               \<and> (\<exists>rows. colorASCII_goroutines img width scale order = Some (Inr rows) \<and> rows \<noteq> []))"
proof -
  from height_sandwich [OF assms]
  obtain h0 where h0: "height_expr (Dy img) width (Dx img) scale = Some h0"
      "0 \<le> h0" "clamp_height h0 \<le> max_strings"
      "H_out img width (scale * (1 - 1 / 2 ^ 50)) \<le> clamp_height h0"
      "clamp_height h0 \<le> H_out img width (scale * (1 + 1 / 2 ^ 50))"
      "H_out img width (scale * (1 - 1 / 2 ^ 50)) = H_out img width (scale * (1 + 1 / 2 ^ 50))
         \<longrightarrow> clamp_height h0 = H_out img width scale"
    by blast
  have pos: "1 \<le> clamp_height h0" using clamp_height_pos [OF h0(2)] by simp
  have nonempty: "rows \<noteq> []" if "int (length rows) = clamp_height h0" for rows :: "string list"
    using that pos by auto
  have s: "\<exists>rows. toASCII_sequential img width scale = Some (Inr rows) \<and> rows \<noteq> []"
    using seq_rows_nonempty [OF h0(2,3), of img width] nonempty
    by (auto simp add: toASCII_sequential_def h0(1))
  have p: "(\<exists>rows. toASCII_goroutines img width scale order = Some (Inr rows) \<and> rows \<noteq> [])
         \<and> (\<exists>rows. colorASCII_goroutines img width scale order = Some (Inr rows) \<and> rows \<noteq> [])"
    if "schedule (clamp_height h0) order" for order
  proof
    from par_rows_shape(1) [OF h0(2) that h0(3), of img width] nonempty
    show "\<exists>rows. toASCII_goroutines img width scale order = Some (Inr rows) \<and> rows \<noteq> []"
      by (auto simp add: toASCII_goroutines_def h0(1))
    from par_rows_shape(2) [OF h0(2) that h0(3), of img width] nonempty
    show "\<exists>rows. colorASCII_goroutines img width scale order = Some (Inr rows) \<and> rows \<noteq> []"
      by (auto simp add: colorASCII_goroutines_def h0(1))
  qed
  show ?thesis using h0 pos s p by blast
qed

text \<open>Claim C4, witness: a 2x2 image at width 4 and scale 0.5, rows arriving in reverse.\<close>

theorem output_height_within_rounding_witness:
  "height_expr (Dy split2x2) 4 (Dx split2x2) (1 / 2) = Some 2
   \<and> H_out split2x2 4 (1 / 2) = 2
   \<and> (\<exists>rows. toASCII_sequential split2x2 4 (1 / 2) = Some (Inr rows) \<and> rows \<noteq> [])
   \<and> (\<exists>rows. toASCII_goroutines split2x2 4 (1 / 2) [1, 0] = Some (Inr rows) \<and> rows \<noteq> [])
   \<and> (\<exists>rows. colorASCII_goroutines split2x2 4 (1 / 2) [1, 0] = Some (Inr rows) \<and> rows \<noteq> [])"
proof -
  have v: "0 < Dx split2x2" "Dx split2x2 < 2 ^ 31" "0 < Dy split2x2" "Dy split2x2 < 2 ^ 31"
    "(0::int) < 4" "(4::int) < 2 ^ 31" "(0::rat) < 1 / 2"
    by (simp_all add: split2x2_def)
  have H: "H_out split2x2 4 (1 / 2) = 2" by (simp add: H_out_def split2x2_def)
  hence hb: "H_out split2x2 4 (1 / 2) < 2 ^ 24" by simp
  have he: "height_expr (Dy split2x2) 4 (Dx split2x2) (1 / 2) = Some 2"
    using height_expr_half by (simp add: split2x2_def)
  from output_height_within_rounding [OF v hb] he
  obtain h0 where h0: "h0 = 2"
    "\<exists>rows. toASCII_sequential split2x2 4 (1 / 2) = Some (Inr rows) \<and> rows \<noteq> []"
    "\<forall>order. schedule (clamp_height h0) order \<longrightarrow>
       (\<exists>rows. toASCII_goroutines split2x2 4 (1 / 2) order = Some (Inr rows) \<and> rows \<noteq> [])
     \<and> (\<exists>rows. colorASCII_goroutines split2x2 4 (1 / 2) order = Some (Inr rows) \<and> rows \<noteq> [])"
    by auto
  from h0(3) schedule_two h0(1)
  have "(\<exists>rows. toASCII_goroutines split2x2 4 (1 / 2) [1, 0] = Some (Inr rows) \<and> rows \<noteq> [])
     \<and> (\<exists>rows. colorASCII_goroutines split2x2 4 (1 / 2) [1, 0] = Some (Inr rows) \<and> rows \<noteq> [])"
    by blast
  thus ?thesis using he H h0(2) by blast
qed

text \<open>
  Claim C4 as stated fails: for an image 7 wide and 8 high at width 61 and scale 0.875 the
  quotient \<open>488 / 7\<close> is rounded down, the product with \<open>0.875\<close> is rounded to the number
  below 61, and the height is 60, whereas \<open>floor (8 * 61 / 7 * 0.875) = 61\<close>.
\<close>

theorem height_differs_from_floor:
  "map_option clamp_height (height_expr (Dy black7x8) 61 (Dx black7x8) (7 / 8)) = Some 60
   \<and> H_out black7x8 61 (7 / 8) = 61"
proof -
  have "H_out black7x8 61 (7 / 8) = 61" by (simp add: H_out_def black7x8_def)
  moreover have "height_expr (Dy black7x8) 61 (Dx black7x8) (7 / 8) = Some 60"
    using height_expr_7x8 by (simp add: black7x8_def)
  ultimately show ?thesis by (simp add: clamp_height_def)
qed

subsection \<open>Output dimensions\<close>

text \<open>
  Claim C3, as amended.  For an image of positive width and height below \<open>2^31\<close>, a
  positive output width below \<open>2^31\<close> and a positive scale such that the specified height
  \<open>H_out\<close> is below \<open>2^24\<close>, both goroutine converters return on every schedule as many
  rows as the clamped value of the height expression, which lies between the specified
  height \<open>H_out\<close> for the scale \<open>s * (1 - 2^-50)\<close> and the one for \<open>s * (1 + 2^-50)\<close>.  In
  plain mode every row is \<open>width\<close> palette bytes; in colour mode every row reads back as
  exactly \<open>width\<close> escape-wrapped palette bytes.
\<close>

theorem output_dimensions:
  assumes "0 < Dx img" "Dx img < 2 ^ 31" "0 < Dy img" "Dy img < 2 ^ 31"
    and "0 < width" "width < 2 ^ 31" "0 < scale" "H_out img width scale < 2 ^ 24"
  shows "\<exists>h0. height_expr (Dy img) width (Dx img) scale = Some h0
           \<and> H_out img width (scale * (1 - 1 / 2 ^ 50)) \<le> clamp_height h0
           \<and> clamp_height h0 \<le> H_out img width (scale * (1 + 1 / 2 ^ 50))
           \<and> (H_out img width (scale * (1 - 1 / 2 ^ 50)) = H_out img width (scale * (1 + 1 / 2 ^ 50))
                \<longrightarrow> clamp_height h0 = H_out img width scale)
           \<and> (\<forall>order. schedule (clamp_height h0) order \<longrightarrow>
                (\<exists>rows. toASCII_goroutines img width scale order = Some (Inr rows)
                    \<and> int (length rows) = clamp_height h0
                    \<and> (\<forall>row\<in>set rows. length row = nat width \<and> set row \<subseteq> set palette))
              \<and> (\<exists>rows. colorASCII_goroutines img width scale order = Some (Inr rows)
                    \<and> int (length rows) = clamp_height h0
                    \<and> (\<forall>row\<in>set rows. \<exists>cells. parse_cells (nat width) row = Some cells
                          \<and> (\<forall>(r, g, b, c)\<in>set cells. c \<in> set palette))))"
proof -
  from height_sandwich [OF assms]
  obtain h0 where h0: "height_expr (Dy img) width (Dx img) scale = Some h0"
      "0 \<le> h0" "clamp_height h0 \<le> max_strings"
      "H_out img width (scale * (1 - 1 / 2 ^ 50)) \<le> clamp_height h0"
      "clamp_height h0 \<le> H_out img width (scale * (1 + 1 / 2 ^ 50))"
      "H_out img width (scale * (1 - 1 / 2 ^ 50)) = H_out img width (scale * (1 + 1 / 2 ^ 50))
         \<longrightarrow> clamp_height h0 = H_out img width scale"
    by blast
  have p: "(\<exists>rows. toASCII_goroutines img width scale order = Some (Inr rows)
                    \<and> int (length rows) = clamp_height h0
                    \<and> (\<forall>row\<in>set rows. length row = nat width \<and> set row \<subseteq> set palette))
              \<and> (\<exists>rows. colorASCII_goroutines img width scale order = Some (Inr rows)
                    \<and> int (length rows) = clamp_height h0
                    \<and> (\<forall>row\<in>set rows. \<exists>cells. parse_cells (nat width) row = Some cells
                          \<and> (\<forall>(r, g, b, c)\<in>set cells. c \<in> set palette)))"
    if "schedule (clamp_height h0) order" for order
    using par_rows_shape [OF h0(2) that h0(3), of img width]
    by (simp add: toASCII_goroutines_def colorASCII_goroutines_def h0(1))
  show ?thesis using h0 p by blast
qed

text \<open>Claim C3, witness: a 2x1 image at width 2 and scale 1.\<close>

theorem output_dimensions_witness:
  "(\<exists>rows. toASCII_goroutines split2x1 2 1 [0] = Some (Inr rows)
       \<and> int (length rows) = H_out split2x1 2 1
       \<and> list_all (\<lambda>row. length row = 2 \<and> set row \<subseteq> set palette) rows)
   \<and> (\<exists>rows. colorASCII_goroutines split2x1 2 1 [0] = Some (Inr rows)
       \<and> int (length rows) = H_out split2x1 2 1
       \<and> list_all (\<lambda>row. parse_cells 2 row \<noteq> None) rows)"
proof -
  have v: "0 < Dx split2x1" "Dx split2x1 < 2 ^ 31" "0 < Dy split2x1" "Dy split2x1 < 2 ^ 31"
    "(0::int) < 2" "(2::int) < 2 ^ 31" "(0::rat) < 1"
    by (simp_all add: split2x1_def)
  have H: "H_out split2x1 2 1 = 1" by (simp add: H_out_def split2x1_def)
  hence hb: "H_out split2x1 2 1 < 2 ^ 24" by simp
  have he: "height_expr (Dy split2x1) 2 (Dx split2x1) 1 = Some 1"
    using height_expr_one by (simp add: split2x1_def)
  from output_dimensions [OF v hb] he
  obtain h0 where h0: "h0 = 1"
    "\<forall>order. schedule (clamp_height h0) order \<longrightarrow>
                (\<exists>rows. toASCII_goroutines split2x1 2 1 order = Some (Inr rows)
                    \<and> int (length rows) = clamp_height h0
                    \<and> (\<forall>row\<in>set rows. length row = nat 2 \<and> set row \<subseteq> set palette))
              \<and> (\<exists>rows. colorASCII_goroutines split2x1 2 1 order = Some (Inr rows)
                    \<and> int (length rows) = clamp_height h0
                    \<and> (\<forall>row\<in>set rows. \<exists>cells. parse_cells (nat 2) row = Some cells
                          \<and> (\<forall>(r, g, b, c)\<in>set cells. c \<in> set palette)))"
    by auto
  have c1: "clamp_height h0 = 1" using h0(1) by (simp add: clamp_height_def)
  from h0(2) schedule_one h0(1)
  have "(\<exists>rows. toASCII_goroutines split2x1 2 1 [0] = Some (Inr rows)
                    \<and> int (length rows) = clamp_height h0
                    \<and> (\<forall>row\<in>set rows. length row = nat 2 \<and> set row \<subseteq> set palette))
              \<and> (\<exists>rows. colorASCII_goroutines split2x1 2 1 [0] = Some (Inr rows)
                    \<and> int (length rows) = clamp_height h0
                    \<and> (\<forall>row\<in>set rows. \<exists>cells. parse_cells (nat 2) row = Some cells
                          \<and> (\<forall>(r, g, b, c)\<in>set cells. c \<in> set palette)))"
    by blast
  thus ?thesis unfolding c1 H by (simp add: list_all_iff) blast
qed

text \<open>
  Claim C3 as stated fails: a 7x8 image at width 61 and scale 0.875 is converted to 60 rows,
  whereas \<open>H_out = 61\<close>.
\<close>

theorem row_count_differs_from_H_out:
  "(\<exists>rows. toASCII_goroutines black7x8 61 (7 / 8) [0..59] = Some (Inr rows) \<and> length rows = 60)
   \<and> H_out black7x8 61 (7 / 8) = 61"
proof -
  have H: "H_out black7x8 61 (7 / 8) = 61" by (simp add: H_out_def black7x8_def)
  have he: "height_expr (Dy black7x8) 61 (Dx black7x8) (7 / 8) = Some 60"
    using height_expr_7x8 by (simp add: black7x8_def)
  have "(0::int) \<le> 60" by simp
  moreover have "clamp_height 60 \<le> max_strings" by (simp add: clamp_height_def max_strings_def)
  ultimately have "\<exists>rows. toASCII_par black7x8 61 60 [0..59] = Inr rows
      \<and> int (length rows) = clamp_height 60"
    using schedule_sixty par_rows_shape(1) [of 60 "[0..59]" black7x8 61] by blast
  then obtain rows where "toASCII_par black7x8 61 60 [0..59] = Inr rows" "int (length rows) = 60"
    by (auto simp add: clamp_height_def)
  hence "toASCII_goroutines black7x8 61 (7 / 8) [0..59] = Some (Inr rows) \<and> length rows = 60"
    using he by (simp add: toASCII_goroutines_def)
  thus ?thesis using H by blast
qed

end
